theory Spec2Isabelle
  imports Main "HOL-Library.AList"
begin

section \<open>Errors\<close>

text \<open>
  Every \<^verbatim>\<open>raise\<close> of \<^verbatim>\<open>numth.py\<close> is a Python \<^verbatim>\<open>ValueError\<close> that carries a
  message; the message is what tells the kinds of failure apart. The other constructors
  are the built-in exceptions the interpreter itself raises: a name that is bound neither
  locally nor in the module (\<^verbatim>\<open>NameError\<close>), a missing dictionary key
  (\<^verbatim>\<open>KeyError\<close>), an operand of the wrong type such as \<^verbatim>\<open>None\<close> where a number or
  a dictionary is needed (\<^verbatim>\<open>TypeError\<close>, \<^verbatim>\<open>AttributeError\<close>) and a zero divisor of
  \<^verbatim>\<open>//\<close> or \<^verbatim>\<open>%\<close> (\<^verbatim>\<open>ZeroDivisionError\<close>).
\<close>

datatype error =
    ValueError string
  | NameError string
  | KeyError int
  | TypeError
  | AttributeError
  | ZeroDivisionError

definition DivisionByZero :: error where
  "DivisionByZero = ValueError ''Attempted division by zero''"

definition UndefinedGCD :: error where
  "UndefinedGCD = ValueError ''gcd(0, 0) is undefined''"

definition InvalidBase :: error where
  "InvalidBase = ValueError ''p-adic base must be at least 2''"

definition InvalidModulus :: error where
  "InvalidModulus = ValueError ''Modulus must be at least 2''"

definition NotInvertible :: "int \<Rightarrow> int \<Rightarrow> error" where
  "NotInvertible num m = ValueError ''{} is not invertible modulo {}''"

definition UndefinedJacobiSymbol :: error where
  "UndefinedJacobiSymbol = ValueError ''Jacobi symbol ( {} | {} ) is undefined''"

section \<open>Division with remainder\<close>

text \<open>
  \<^verbatim>\<open>div(num, div, METHOD=None)\<close>. Python's \<^verbatim>\<open>//\<close> and \<^verbatim>\<open>%\<close> on integers round
  towards minus infinity, as \<open>div\<close> and \<open>mod\<close> on \<^typ>\<open>int\<close> do. The keyword argument
  is \<^verbatim>\<open>None\<close> or a string, and only the string \<^verbatim>\<open>'SMALL'\<close> changes the result.
\<close>

definition div_numth :: "int \<Rightarrow> int \<Rightarrow> string option \<Rightarrow> error + int \<times> int" where
  "div_numth num d METHOD =
     (if d = 0 then Inl DivisionByZero
      else
        let (q, r) = (if d > 0 \<or> num = 0 then (num div d, num mod d)
                      else (num div d + 1, (num mod d) + \<bar>d\<bar>));
            (q, r) = (if METHOD = Some ''SMALL'' \<and> r > \<bar>d\<bar> div 2
                      then (q + d div \<bar>d\<bar>, r - \<bar>d\<bar>)
                      else (q, r))
        in Inr (q, r))"

abbreviation SMALL :: "string option" where
  "SMALL \<equiv> Some ''SMALL''"

section \<open>Properties of division\<close>

lemma div_numth_zero: "div_numth num 0 METHOD = Inl DivisionByZero"
  by (simp add: div_numth_def)

lemma sgn_div_abs: "d \<noteq> 0 \<Longrightarrow> (d::int) div \<bar>d\<bar> = (if d > 0 then 1 else -1)"
  by (auto simp: abs_if zdiv_zminus2_eq_if)

lemma div_numth_default_pos:
  "d > 0 \<Longrightarrow> div_numth num d None = Inr (num div d, num mod d)"
  by (simp add: div_numth_def)

lemma div_numth_default_neg:
  "d < 0 \<Longrightarrow> num \<noteq> 0 \<Longrightarrow> div_numth num d None = Inr (num div d + 1, num mod d - d)"
  by (simp add: div_numth_def)

text \<open>
  In \<^verbatim>\<open>SMALL\<close> mode the result is a division with the remainder of least absolute
  value; this is what makes the Euclidean loops below terminate.
\<close>

lemma div_numth_SMALL:
  assumes "d \<noteq> 0"
  obtains q r where "div_numth num d SMALL = Inr (q, r)" "num = q * d + r"
    "- \<bar>d\<bar> < 2 * r" "2 * r \<le> \<bar>d\<bar>"
proof -
  define q0 where "q0 = (if d > 0 \<or> num = 0 then num div d else num div d + 1)"
  define r0 where "r0 = (if d > 0 \<or> num = 0 then num mod d else num mod d + \<bar>d\<bar>)"
  have eq0: "num = q0 * d + r0"
    using assms by (auto simp: q0_def r0_def algebra_simps)
  have r0_lo: "0 \<le> r0" and r0_hi: "r0 \<le> \<bar>d\<bar>"
  proof -
    show "0 \<le> r0"
    proof (cases "d > 0")
      case True
      then show ?thesis by (simp add: r0_def)
    next
      case False
      with assms have dneg: "d < 0" by simp
      have "d < num mod d" using dneg by (rule neg_mod_bound)
      then have "0 \<le> num mod d + \<bar>d\<bar>" using dneg by linarith
      then show ?thesis using dneg by (simp add: r0_def)
    qed
    show "r0 \<le> \<bar>d\<bar>"
    proof (cases "d > 0")
      case True
      then have "num mod d < d" by (rule pos_mod_bound)
      then have "num mod d \<le> \<bar>d\<bar>" by linarith
      then show ?thesis using True by (simp add: r0_def)
    next
      case False
      with assms have dneg: "d < 0" by simp
      have "num mod d \<le> 0" using dneg by (rule neg_mod_sign)
      then have "num mod d + \<bar>d\<bar> \<le> \<bar>d\<bar>" by linarith
      then show ?thesis using dneg by (simp add: r0_def)
    qed
  qed
  define q where "q = (if r0 > \<bar>d\<bar> div 2 then q0 + d div \<bar>d\<bar> else q0)"
  define r where "r = (if r0 > \<bar>d\<bar> div 2 then r0 - \<bar>d\<bar> else r0)"
  have res: "div_numth num d SMALL = Inr (q, r)"
    using assms by (auto simp: div_numth_def q_def r_def q0_def r0_def)
  have sg: "(d div \<bar>d\<bar>) * d = \<bar>d\<bar>"
    using assms by (simp add: sgn_div_abs)
  have eq: "num = q * d + r"
  proof (cases "r0 > \<bar>d\<bar> div 2")
    case True
    then have "q = q0 + d div \<bar>d\<bar>" and "r = r0 - \<bar>d\<bar>"
      by (simp_all add: q_def r_def)
    then have "q * d + r = q0 * d + (d div \<bar>d\<bar>) * d + r0 - \<bar>d\<bar>"
      by (simp add: algebra_simps)
    with sg eq0 show ?thesis by simp
  next
    case False
    then show ?thesis using eq0 by (simp add: q_def r_def)
  qed
  have lo: "- \<bar>d\<bar> < 2 * r"
    using r0_lo r0_hi assms unfolding r_def by (cases "r0 > \<bar>d\<bar> div 2") auto
  have hi: "2 * r \<le> \<bar>d\<bar>"
    using r0_lo r0_hi assms unfolding r_def by (cases "r0 > \<bar>d\<bar> div 2") auto
  from res eq lo hi show thesis by (rule that)
qed

lemma div_numth_SMALL_Inr:
  assumes "div_numth num d SMALL = Inr (q, r)"
  shows "d \<noteq> 0 \<and> num = q * d + r \<and> - \<bar>d\<bar> < 2 * r \<and> 2 * r \<le> \<bar>d\<bar>"
proof -
  from assms have d: "d \<noteq> 0" by (auto simp: div_numth_def)
  from d obtain q' r' where *: "div_numth num d SMALL = Inr (q', r')" "num = q' * d + r'"
    "- \<bar>d\<bar> < 2 * r'" "2 * r' \<le> \<bar>d\<bar>"
    by (rule div_numth_SMALL)
  with assms d show ?thesis by simp
qed

lemma div_numth_SMALL_decreases:
  "div_numth num d SMALL = Inr (q, r) \<Longrightarrow> \<bar>r\<bar> < \<bar>d\<bar>"
  using div_numth_SMALL_Inr[of num d q r] by auto

section \<open>Greatest common divisor\<close>

text \<open>
  \<^verbatim>\<open>gcd(a, b)\<close>: the loop \<^verbatim>\<open>while b_ != 0: a_, b_ = b_, div(a_, b_, METHOD='SMALL')[1]\<close>
  and the final \<^verbatim>\<open>abs(a_)\<close>.
\<close>

function gcd_loop :: "int \<Rightarrow> int \<Rightarrow> error + int" where
  "gcd_loop a' b' =
     (if b' \<noteq> 0
      then (case div_numth a' b' SMALL of
              Inl e \<Rightarrow> Inl e
            | Inr (q, r) \<Rightarrow> gcd_loop b' r)
      else Inr \<bar>a'\<bar>)"
  by pat_completeness auto
termination
  by (relation "measure (\<lambda>(a', b'). nat \<bar>b'\<bar>)")
     (auto dest: div_numth_SMALL_decreases)

declare gcd_loop.simps [simp del]

definition gcd_numth :: "int \<Rightarrow> int \<Rightarrow> error + int" where
  "gcd_numth a b =
     (if (a, b) = (0, 0) then Inl UndefinedGCD else gcd_loop a b)"

section \<open>Extended Euclidean algorithm\<close>

text \<open>
  \<^verbatim>\<open>bezout(a, b)\<close>. The loop state is the tuple of the local variables
  \<^verbatim>\<open>b_, r, xx, x, yy, y\<close> (\<^verbatim>\<open>a_\<close> and \<^verbatim>\<open>q\<close> are overwritten before they are
  read again); the loop returns the pair \<^verbatim>\<open>(xx, yy)\<close> it ends with.
\<close>

function bezout_loop ::
  "int \<Rightarrow> int \<Rightarrow> int \<Rightarrow> int \<Rightarrow> int \<Rightarrow> int \<Rightarrow> error + int \<times> int" where
  "bezout_loop b' r xx x yy y =
     (if r \<noteq> 0
      then (case div_numth b' r SMALL of
              Inl e \<Rightarrow> Inl e
            | Inr (q, r') \<Rightarrow> bezout_loop r r' x (- q * x + xx) y (- q * y + yy))
      else Inr (xx, yy))"
  by pat_completeness auto
termination
  by (relation "measure (\<lambda>(b', r, xx, x, yy, y). nat \<bar>r\<bar>)")
     (auto dest: div_numth_SMALL_decreases)

declare bezout_loop.simps [simp del]

definition bezout :: "int \<Rightarrow> int \<Rightarrow> error + int \<times> int" where
  "bezout a b =
     (if (a, b) = (0, 0) then Inl UndefinedGCD
      else if b = 0 then (if a > 0 then Inr (1, 0) else Inr (-1, 0))
      else
        (case div_numth a b SMALL of
           Inl e \<Rightarrow> Inl e
         | Inr (q, r) \<Rightarrow>
             (case bezout_loop b r 0 1 1 (- q) of
                Inl e \<Rightarrow> Inl e
              | Inr (xx, yy) \<Rightarrow>
                  if a * xx + b * yy > 0 then Inr (xx, yy) else Inr (- xx, - yy))))"

section \<open>p-adic valuation\<close>

text \<open>
  \<^verbatim>\<open>padic(num, base)\<close>. The loop \<^verbatim>\<open>while rest % base == 0\<close> has no bound in the
  source, so it is a partial function: \<open>None\<close> is the run that never returns.
\<close>

partial_function (option) padic_loop :: "int \<Rightarrow> int \<Rightarrow> int \<Rightarrow> (int \<times> int) option" where
  "padic_loop base exp rest =
     (if rest mod base = 0 then padic_loop base (exp + 1) (rest div base)
      else Some (exp, rest))"

declare padic_loop.simps [code]

definition padic :: "int \<Rightarrow> int \<Rightarrow> (error + int \<times> int) option" where
  "padic num base =
     (if base < 2 then Some (Inl InvalidBase)
      else map_option Inr (padic_loop base 0 num))"

section \<open>Modular inverse and power\<close>

definition mod_inverse :: "int \<Rightarrow> int \<Rightarrow> error + int" where
  "mod_inverse num m =
     (if m < 1 then Inl InvalidModulus
      else
        (case gcd_numth num m of
           Inl e \<Rightarrow> Inl e
         | Inr g \<Rightarrow>
             if g \<noteq> 1 then Inl (NotInvertible num m)
             else (case bezout num m of
                     Inl e \<Rightarrow> Inl e
                   | Inr (x, y) \<Rightarrow> Inr (x mod m))))"

function mod_power :: "int \<Rightarrow> int \<Rightarrow> int \<Rightarrow> error + int" where
  "mod_power num exp m =
     (if m < 2 then Inl InvalidModulus
      else if exp < 0 then
        (case mod_inverse num m of
           Inl e \<Rightarrow> Inl e
         | Inr inv' \<Rightarrow> mod_power inv' (- exp) m)
      else if exp = 0 then Inr 1
      else if exp = 1 then Inr (num mod m)
      else if exp mod 2 = 0 then mod_power (num * num) (exp div 2) m
      else
        (case mod_power (num * num) (exp div 2) m of
           Inl e \<Rightarrow> Inl e
         | Inr v \<Rightarrow> Inr ((num * v) mod m)))"
  by pat_completeness auto
termination
  by (relation "measure (\<lambda>(num, exp, m). if exp < 0 then nat (- exp) + 1 else nat exp)")
     auto

declare mod_power.simps [simp del]

section \<open>Jacobi symbol\<close>

text \<open>
  \<^verbatim>\<open>jacobi(a, b)\<close>. The message of the first \<^verbatim>\<open>raise\<close> is built from
  \<^verbatim>\<open>num\<close> and \<^verbatim>\<open>mod\<close>, which are neither parameters nor locals of \<^verbatim>\<open>jacobi\<close> and
  are not bound by the module either (only the self-test under
  \<^verbatim>\<open>if __name__ == '__main__'\<close> assigns them). Python evaluates the arguments of
  \<^verbatim>\<open>format\<close> before it builds the \<^verbatim>\<open>ValueError\<close>, so what a caller of the
  imported module gets is a \<^verbatim>\<open>NameError\<close> for \<^verbatim>\<open>num\<close>.
  The recursion goes through \<^verbatim>\<open>padic\<close>, which may not return.
\<close>

partial_function (option) jacobi :: "int \<Rightarrow> int \<Rightarrow> (error + int) option" where
  "jacobi a b =
     (if b mod 2 = 0 then Some (Inl (NameError ''num''))
      else if b = 1 then Some (Inr 1)
      else
        (case gcd_numth a b of
           Inl e \<Rightarrow> Some (Inl e)
         | Inr g \<Rightarrow>
             if g \<noteq> 1 then Some (Inr 0)
             else
               Option.bind (padic (a mod b) 2) (\<lambda>pr.
                 case pr of
                   Inl e \<Rightarrow> Some (Inl e)
                 | Inr (exp, a') \<Rightarrow>
                     let sgn = (if exp mod 2 = 1 \<and> b mod 8 \<in> {3, 5} then - 1 else 1)
                     in if a' = 1 then Some (Inr sgn)
                        else
                          let sgn = (if b mod 4 \<noteq> 1 \<and> a' mod 4 \<noteq> 1 then sgn * (- 1) else sgn)
                          in Option.bind (jacobi b a') (\<lambda>res.
                               case res of
                                 Inl e \<Rightarrow> Some (Inl e)
                               | Inr v \<Rightarrow> Some (Inr (sgn * v))))))"

declare jacobi.simps [code]


section \<open>The ring of integers modulo \<open>n\<close>\<close>

text \<open>
  \<^verbatim>\<open>modular_ring.py\<close>. Python dictionaries keep their keys in insertion order and an
  assignment to a key that is present replaces its value in place: this is an association
  list with \<^const>\<open>AList.update\<close> and \<^const>\<open>map_of\<close>.
\<close>

type_synonym dict = "(int \<times> int) list"

text \<open>
  The module imports \<^verbatim>\<open>factor\<close>, \<^verbatim>\<open>euler_phi\<close>, \<^verbatim>\<open>carmichael_lambda\<close> and
  \<^verbatim>\<open>prime_to\<close> from modules that are not part of the sources at hand; they are
  parameters of the model. (\<^verbatim>\<open>gcd\<close>, \<^verbatim>\<open>mod_inverse\<close> and \<^verbatim>\<open>mod_power\<close> are the
  functions of \<^verbatim>\<open>numth.py\<close> above.)
\<close>

record collab =
  factor :: "int \<Rightarrow> dict"
  euler_phi :: "dict \<Rightarrow> int"
  carmichael_lambda :: "dict \<Rightarrow> int"
  prime_to :: "dict \<Rightarrow> int list"

text \<open>
  The object: a field \<open>c_x\<close> is the attribute \<^verbatim>\<open>_x\<close> of the class, \<open>None\<close> until it is
  computed.
\<close>

record ring =
  modulus :: int
  orders :: dict
  c_factorization :: "dict option"
  c_euler :: "int option"
  c_carmichael :: "int option"
  c_carmichael_factorization :: "dict option"
  c_multiplicative_group :: "int list option"
  c_generator :: "int option"
  c_as_cyclic_group :: "dict option"
  c_discrete_log :: "dict option"

text \<open>
  A method either runs forever (\<open>None\<close>) or ends, by \<^verbatim>\<open>return\<close> or by an exception,
  and leaves the object in some state.
\<close>

type_synonym 'a outcome = "((error + 'a) \<times> ring) option"

definition bind_m :: "'a outcome \<Rightarrow> ('a \<Rightarrow> ring \<Rightarrow> 'b outcome) \<Rightarrow> 'b outcome" where
  "bind_m x f =
     (case x of
        None \<Rightarrow> None
      | Some (Inl e, s) \<Rightarrow> Some (Inl e, s)
      | Some (Inr v, s) \<Rightarrow> f v s)"

definition py_mod :: "int \<Rightarrow> int \<Rightarrow> error + int" where
  "py_mod a b = (if b = 0 then Inl ZeroDivisionError else Inr (a mod b))"

definition py_floordiv :: "int \<Rightarrow> int \<Rightarrow> error + int" where
  "py_floordiv a b = (if b = 0 then Inl ZeroDivisionError else Inr (a div b))"

text \<open>\<^verbatim>\<open>__init__(self, modulus)\<close>\<close>

definition ModularRing :: "int \<Rightarrow> ring" where
  "ModularRing m =
     \<lparr> modulus = m,
       orders = (if m = 2 then [(1, 1)] else [(1, 1), (m - 1, 2)]),
       c_factorization = None,
       c_euler = None,
       c_carmichael = None,
       c_carmichael_factorization = None,
       c_multiplicative_group = None,
       c_generator = None,
       c_as_cyclic_group = None,
       c_discrete_log = None \<rparr>"

subsection \<open>Cached accessors\<close>

definition factorization :: "collab \<Rightarrow> ring \<Rightarrow> dict \<times> ring" where
  "factorization c s =
     (case c_factorization s of
        None \<Rightarrow> (let f = factor c (modulus s) in (f, s\<lparr>c_factorization := Some f\<rparr>))
      | Some f \<Rightarrow> (f, s))"

definition euler :: "collab \<Rightarrow> ring \<Rightarrow> int \<times> ring" where
  "euler c s =
     (case c_euler s of
        None \<Rightarrow> (let (f, s1) = factorization c s; v = euler_phi c f
                 in (v, s1\<lparr>c_euler := Some v\<rparr>))
      | Some v \<Rightarrow> (v, s))"

definition carmichael :: "collab \<Rightarrow> ring \<Rightarrow> int \<times> ring" where
  "carmichael c s =
     (case c_carmichael s of
        None \<Rightarrow> (let (f, s1) = factorization c s; v = carmichael_lambda c f
                 in (v, s1\<lparr>c_carmichael := Some v\<rparr>))
      | Some v \<Rightarrow> (v, s))"

definition carmichael_factorization :: "collab \<Rightarrow> ring \<Rightarrow> dict \<times> ring" where
  "carmichael_factorization c s =
     (case c_carmichael_factorization s of
        None \<Rightarrow> (let (l, s1) = carmichael c s; f = factor c l
                 in (f, s1\<lparr>c_carmichael_factorization := Some f\<rparr>))
      | Some f \<Rightarrow> (f, s))"

text \<open>
  \<^verbatim>\<open>Counter(d).elements()\<close> repeats every key as often as its count says, in the order
  of the dictionary, and leaves out the keys whose count is below one.
\<close>

definition counter_elements :: "dict \<Rightarrow> int list" where
  "counter_elements d = concat (map (\<lambda>(p, e). replicate (nat e) p) d)"

definition carmichael_primes :: "collab \<Rightarrow> ring \<Rightarrow> int list \<times> ring" where
  "carmichael_primes c s =
     (let (f, s1) = carmichael_factorization c s in (counter_elements f, s1))"

definition is_cyclic :: "collab \<Rightarrow> ring \<Rightarrow> bool \<times> ring" where
  "is_cyclic c s =
     (let (e, s1) = euler c s; (l, s2) = carmichael c s1 in (e = l, s2))"

definition multiplicative_group :: "collab \<Rightarrow> ring \<Rightarrow> int list \<times> ring" where
  "multiplicative_group c s =
     (case c_multiplicative_group s of
        None \<Rightarrow> (let (f, s1) = factorization c s; g = prime_to c f
                 in (g, s1\<lparr>c_multiplicative_group := Some g\<rparr>))
      | Some g \<Rightarrow> (g, s))"

subsection \<open>Ring operations\<close>

definition elem :: "ring \<Rightarrow> int \<Rightarrow> error + int" where
  "elem s number = py_mod number (modulus s)"

text \<open>\<^verbatim>\<open>reduce(lambda x, y: (x + y) % self.modulus, elements, 0)\<close> and its product twin.\<close>

definition add :: "ring \<Rightarrow> int list \<Rightarrow> error + int" where
  "add s elements =
     fold (\<lambda>y acc. case acc of Inl e \<Rightarrow> Inl e | Inr x \<Rightarrow> py_mod (x + y) (modulus s))
       elements (Inr 0)"

definition mult :: "ring \<Rightarrow> int list \<Rightarrow> error + int" where
  "mult s elements =
     fold (\<lambda>y acc. case acc of Inl e \<Rightarrow> Inl e | Inr x \<Rightarrow> py_mod (x * y) (modulus s))
       elements (Inr 1)"

definition power_of :: "ring \<Rightarrow> int \<Rightarrow> int \<Rightarrow> error + int" where
  "power_of s element exponent = mod_power element exponent (modulus s)"

definition inverse_of :: "ring \<Rightarrow> int \<Rightarrow> error + int" where
  "inverse_of s element = mod_inverse element (modulus s)"

subsection \<open>The subgroup generated by an element\<close>

text \<open>
  \<^verbatim>\<open>cyclic_subgroup_from(element)\<close>. The loop \<^verbatim>\<open>while curr_elem != 1\<close> has no bound;
  it carries the dictionary \<^verbatim>\<open>subgroup\<close>, \<^verbatim>\<open>curr_elem\<close> and \<^verbatim>\<open>curr_power\<close>.
\<close>

partial_function (option) cyclic_subgroup_loop ::
  "ring \<Rightarrow> int \<Rightarrow> dict \<Rightarrow> int \<Rightarrow> int \<Rightarrow> (error + dict \<times> int) option" where
  "cyclic_subgroup_loop s element subgroup curr_elem curr_power =
     (if curr_elem \<noteq> 1
      then (case mult s [curr_elem, element] of
              Inl e \<Rightarrow> Some (Inl e)
            | Inr next_elem \<Rightarrow>
                cyclic_subgroup_loop s element
                  (AList.update curr_power curr_elem subgroup) next_elem (curr_power + 1))
      else Some (Inr (subgroup, curr_power)))"

declare cyclic_subgroup_loop.simps [code]

definition cyclic_subgroup_from :: "ring \<Rightarrow> int \<Rightarrow> dict outcome" where
  "cyclic_subgroup_from s element =
     (case cyclic_subgroup_loop s element [(0, 1)] element 1 of
        None \<Rightarrow> None
      | Some (Inl e) \<Rightarrow> Some (Inl e, s)
      | Some (Inr (subgroup, curr_power)) \<Rightarrow>
          Some (Inr subgroup,
                if map_of (orders s) element = None
                then s\<lparr>orders := AList.update element curr_power (orders s)\<rparr>
                else s))"

subsection \<open>Orders, generator, cyclic realization and discrete logarithm\<close>

text \<open>
  A dictionary comprehension \<^verbatim>\<open>{k(i) : v(i) for i in items if keep(i)}\<close> whose values
  may raise.
\<close>

fun dict_comp ::
  "('a \<Rightarrow> bool) \<Rightarrow> ('a \<Rightarrow> error + int \<times> int) \<Rightarrow> 'a list \<Rightarrow> dict \<Rightarrow> error + dict" where
  "dict_comp keep kv [] acc = Inr acc"
| "dict_comp keep kv (i # items) acc =
     (if keep i
      then (case kv i of
              Inl e \<Rightarrow> Inl e
            | Inr (k, v) \<Rightarrow> dict_comp keep kv items (AList.update k v acc))
      else dict_comp keep kv items acc)"

text \<open>\<^verbatim>\<open>{**d1, **d2}\<close>\<close>

definition dict_merge :: "dict \<Rightarrow> dict \<Rightarrow> dict" where
  "dict_merge d1 d2 = fold (\<lambda>(k, v). AList.update k v) d2 d1"

text \<open>
  The \<^verbatim>\<open>for p in self.carmichael_primes()\<close> loop of \<^verbatim>\<open>order_of\<close>, with the local
  dictionary \<^verbatim>\<open>powers\<close>. \<^verbatim>\<open>min\<close> of an empty sequence raises the \<^verbatim>\<open>ValueError\<close>
  that the \<^verbatim>\<open>except\<close> clause turns into the next round; a loop that runs out of primes
  falls off the end of the method, which returns \<^verbatim>\<open>None\<close>.
\<close>

fun order_search :: "ring \<Rightarrow> dict \<Rightarrow> int list \<Rightarrow> error + int option" where
  "order_search s powers [] = Inr None"
| "order_search s powers (p # ps) =
     (case dict_comp (\<lambda>(e, x). map_of powers (p * e) = None)
             (\<lambda>(e, x). case power_of s x p of Inl err \<Rightarrow> Inl err | Inr v \<Rightarrow> Inr (p * e, v))
             powers [] of
        Inl err \<Rightarrow> Inl err
      | Inr new_powers \<Rightarrow>
          (case map fst (filter (\<lambda>(e, x). x = 1) new_powers) of
             [] \<Rightarrow> order_search s (dict_merge powers new_powers) ps
           | h # hs \<Rightarrow> Inr (Some (min_list (h # hs)))))"

text \<open>\<^verbatim>\<open>{x : e for e, x in self.as_cyclic_group().items()}\<close>\<close>

definition invert_dict :: "dict \<Rightarrow> dict" where
  "invert_dict d = fold (\<lambda>(e, x). AList.update x e) d []"

text \<open>
  The methods \<^verbatim>\<open>order_of\<close>, \<^verbatim>\<open>discrete_log\<close>, \<^verbatim>\<open>as_cyclic_group\<close> and
  \<^verbatim>\<open>generator\<close> call each other in a circle. \<^verbatim>\<open>order_of\<close> enters the circle only
  when \<^verbatim>\<open>self._generator is not None\<close>, and then the call of \<^verbatim>\<open>generator()\<close> at the
  far end returns that attribute at once. The definitions follow this: the realization
  and the logarithm table take the generator method as an argument, \<open>order_of\<close> gives them
  the read of the attribute, and \<open>generator\<close>, defined last, closes the circle. That each
  method satisfies the equation the source writes is proved below
  (\<open>order_of_source_equation\<close>).
\<close>

definition generator_cached :: "ring \<Rightarrow> int option outcome" where
  "generator_cached s = Some (Inr (c_generator s), s)"

definition as_cyclic_group_via ::
  "(ring \<Rightarrow> int option outcome) \<Rightarrow> collab \<Rightarrow> ring \<Rightarrow> dict option outcome" where
  "as_cyclic_group_via gen c s =
     (case c_as_cyclic_group s of
        Some cg \<Rightarrow> Some (Inr (Some cg), s)
      | None \<Rightarrow>
          (let (cyc, s1) = is_cyclic c s in
           if cyc then
             bind_m (gen s1) (\<lambda>g s2.
               case g of
                 None \<Rightarrow> Some (Inl TypeError, s2)
               | Some element \<Rightarrow>
                   bind_m (cyclic_subgroup_from s2 element) (\<lambda>subgroup s3.
                     let s4 = s3\<lparr>c_as_cyclic_group := Some subgroup\<rparr>;
                         s5 = (case c_multiplicative_group s4 of
                                 None \<Rightarrow> s4\<lparr>c_multiplicative_group :=
                                             Some (sort (map snd subgroup))\<rparr>
                               | Some g \<Rightarrow> s4)
                     in Some (Inr (c_as_cyclic_group s5), s5)))
           else Some (Inr (c_as_cyclic_group s1), s1)))"

definition discrete_log_via ::
  "(ring \<Rightarrow> int option outcome) \<Rightarrow> collab \<Rightarrow> ring \<Rightarrow> dict option outcome" where
  "discrete_log_via gen c s =
     (case c_discrete_log s of
        Some dl \<Rightarrow> Some (Inr (Some dl), s)
      | None \<Rightarrow>
          (let (cyc, s1) = is_cyclic c s in
           if cyc then
             bind_m (as_cyclic_group_via gen c s1) (\<lambda>cg s2.
               case cg of
                 None \<Rightarrow> Some (Inl AttributeError, s2)
               | Some d \<Rightarrow>
                   (let s3 = s2\<lparr>c_discrete_log := Some (invert_dict d)\<rparr>
                    in Some (Inr (c_discrete_log s3), s3)))
           else Some (Inr (c_discrete_log s1), s1)))"

text \<open>
  The body of \<^verbatim>\<open>order_of\<close>, with the logarithm-table method as an argument. In
  \<^verbatim>\<open>self.euler() // gcd(self.discrete_log()[element], self.euler())\<close> Python evaluates
  the operands from left to right.
\<close>

definition order_of_body ::
  "(ring \<Rightarrow> dict option outcome) \<Rightarrow> collab \<Rightarrow> ring \<Rightarrow> int \<Rightarrow> int option outcome" where
  "order_of_body dlog c s element =
     (case map_of (orders s) element of
        Some v \<Rightarrow> Some (Inr (Some v), s)
      | None \<Rightarrow>
          (case c_generator s of
             Some g \<Rightarrow>
               (let (phi, s1) = euler c s in
                bind_m (dlog s1) (\<lambda>dl s2.
                  case dl of
                    None \<Rightarrow> Some (Inl TypeError, s2)
                  | Some d \<Rightarrow>
                      (case map_of d element of
                         None \<Rightarrow> Some (Inl (KeyError element), s2)
                       | Some k \<Rightarrow>
                           (let (phi', s3) = euler c s2 in
                            case gcd_numth k phi' of
                              Inl e \<Rightarrow> Some (Inl e, s3)
                            | Inr d' \<Rightarrow>
                                (case py_floordiv phi d' of
                                   Inl e \<Rightarrow> Some (Inl e, s3)
                                 | Inr order \<Rightarrow>
                                     Some (Inr (Some order),
                                       s3\<lparr>orders := AList.update element order (orders s3)\<rparr>))))))
           | None \<Rightarrow>
               (case elem s element of
                  Inl e \<Rightarrow> Some (Inl e, s)
                | Inr el \<Rightarrow>
                    (let (primes, s1) = carmichael_primes c s in
                     case order_search s1 [(1, el)] primes of
                       Inl e \<Rightarrow> Some (Inl e, s1)
                     | Inr None \<Rightarrow> Some (Inr None, s1)
                     | Inr (Some order) \<Rightarrow>
                         Some (Inr (Some order),
                           s1\<lparr>orders := AList.update element order (orders s1)\<rparr>)))))"

definition order_of :: "collab \<Rightarrow> ring \<Rightarrow> int \<Rightarrow> int option outcome" where
  "order_of c s element = order_of_body (discrete_log_via generator_cached c) c s element"

text \<open>The \<^verbatim>\<open>for x in self.multiplicative_group()\<close> loop of \<^verbatim>\<open>generator\<close>.\<close>

fun generator_scan :: "collab \<Rightarrow> ring \<Rightarrow> int list \<Rightarrow> unit outcome" where
  "generator_scan c s [] = Some (Inr (), s)"
| "generator_scan c s (x # xs) =
     bind_m (order_of c s x) (\<lambda>ord s1.
       let (phi, s2) = euler c s1 in
       if ord = Some phi then Some (Inr (), s2\<lparr>c_generator := Some x\<rparr>)
       else generator_scan c s2 xs)"

definition generator :: "collab \<Rightarrow> ring \<Rightarrow> int option outcome" where
  "generator c s =
     (case c_generator s of
        Some g \<Rightarrow> Some (Inr (Some g), s)
      | None \<Rightarrow>
          (let (cyc, s1) = is_cyclic c s in
           if cyc then
             (let (grp, s2) = multiplicative_group c s1 in
              bind_m (generator_scan c s2 grp) (\<lambda>u s3. Some (Inr (c_generator s3), s3)))
           else Some (Inr (c_generator s1), s1)))"

definition as_cyclic_group :: "collab \<Rightarrow> ring \<Rightarrow> dict option outcome" where
  "as_cyclic_group c = as_cyclic_group_via (generator c) c"

definition discrete_log :: "collab \<Rightarrow> ring \<Rightarrow> dict option outcome" where
  "discrete_log c = discrete_log_via (generator c) c"

text \<open>\<^verbatim>\<open>all_orders\<close> and \<^verbatim>\<open>all_generators\<close>\<close>

fun order_of_each :: "collab \<Rightarrow> ring \<Rightarrow> int list \<Rightarrow> unit outcome" where
  "order_of_each c s [] = Some (Inr (), s)"
| "order_of_each c s (x # xs) = bind_m (order_of c s x) (\<lambda>ord s1. order_of_each c s1 xs)"

definition all_orders :: "collab \<Rightarrow> ring \<Rightarrow> dict outcome" where
  "all_orders c s =
     (let (phi, s1) = euler c s in
      if int (length (orders s1)) \<noteq> phi then
        (let (cyc, s2) = is_cyclic c s1 in
         bind_m (if cyc then generator c s2 else Some (Inr None, s2)) (\<lambda>g s3.
           let (grp, s4) = multiplicative_group c s3 in
           bind_m (order_of_each c s4 grp) (\<lambda>u s5. Some (Inr (orders s5), s5))))
      else Some (Inr (orders s1), s1))"

fun generators_among :: "collab \<Rightarrow> ring \<Rightarrow> dict \<Rightarrow> int list \<times> ring" where
  "generators_among c s [] = ([], s)"
| "generators_among c s ((x, ord) # items) =
     (let (phi, s1) = euler c s; (rest, s2) = generators_among c s1 items
      in (if ord = phi then x # rest else rest, s2))"

definition all_generators :: "collab \<Rightarrow> ring \<Rightarrow> int list outcome" where
  "all_generators c s =
     bind_m (all_orders c s) (\<lambda>tbl s1.
       let (gens, s2) = generators_among c s1 tbl in Some (Inr gens, s2))"

section \<open>Units, orders and the contracts of the collaborators\<close>

text \<open>
  The units of the ring, in ascending order: the residues in \<open>[1, m)\<close> that are prime to
  \<open>m\<close>.
\<close>

definition units :: "int \<Rightarrow> int list" where
  "units m = filter (\<lambda>x. gcd x m = 1) [1..m - 1]"

text \<open>The order of \<open>x\<close> modulo \<open>m\<close>: the least positive exponent that takes \<open>x\<close> to 1.\<close>

definition ord_mod :: "int \<Rightarrow> int \<Rightarrow> nat" where
  "ord_mod m x = (LEAST k. 0 < k \<and> x ^ k mod m = 1)"

definition is_prime :: "int \<Rightarrow> bool" where
  "is_prime p \<longleftrightarrow> 2 \<le> p \<and> (\<forall>d \<in> {2..<p}. \<not> d dvd p)"

definition factorization_of :: "dict \<Rightarrow> int \<Rightarrow> bool" where
  "factorization_of f n \<longleftrightarrow>
     distinct (map fst f) \<and> (\<forall>(p, e) \<in> set f. is_prime p \<and> 1 \<le> e) \<and>
     prod_list (map (\<lambda>(p, e). p ^ nat e) f) = n"

text \<open>
  Modelled from the spec: the contracts of the collaborators \<^verbatim>\<open>factor\<close>,
  \<^verbatim>\<open>euler_phi\<close>, \<^verbatim>\<open>carmichael_lambda\<close> and \<^verbatim>\<open>prime_to\<close>, whose code is not
  among the sources. \<^verbatim>\<open>factor(n)\<close> maps the primes of \<open>n\<close> to their exponents, of at
  least 1, and the product of the prime powers is \<open>n\<close>; it is used on the modulus and on
  the Carmichael exponent. \<^verbatim>\<open>euler_phi\<close> gives the size of the multiplicative group.
  \<^verbatim>\<open>carmichael_lambda\<close> gives the maximum order of an element of the multiplicative
  group: some unit has exactly this order, and every unit has an order that is not
  larger. \<^verbatim>\<open>prime_to\<close> lists the units in ascending order.
\<close>

definition contracts :: "collab \<Rightarrow> int \<Rightarrow> bool" where
  "contracts c m \<longleftrightarrow>
     factorization_of (factor c m) m \<and>
     euler_phi c (factor c m) = int (length (units m)) \<and>
     (\<exists>x \<in> set (units m).
        x ^ nat (carmichael_lambda c (factor c m)) mod m = 1 \<and>
        (\<forall>k \<in> {1..<nat (carmichael_lambda c (factor c m))}. x ^ k mod m \<noteq> 1)) \<and>
     (\<forall>x \<in> set (units m). \<exists>k \<in> {1..nat (carmichael_lambda c (factor c m))}. x ^ k mod m = 1) \<and>
     factorization_of (factor c (carmichael_lambda c (factor c m)))
       (carmichael_lambda c (factor c m)) \<and>
     prime_to c (factor c m) = units m"

text \<open>Primes among the natural numbers, for the arithmetic of orders.\<close>

definition is_prime_nat :: "nat \<Rightarrow> bool" where
  "is_prime_nat p \<longleftrightarrow> 2 \<le> p \<and> (\<forall>d. d dvd p \<longrightarrow> d = 1 \<or> d = p)"

text \<open>
  The dictionary \<open>{0: x^0 mod m, 1: x^1 mod m, \<dots>, k-1: x^(k-1) mod m}\<close>, in this order.
\<close>

definition power_table :: "int \<Rightarrow> int \<Rightarrow> nat \<Rightarrow> dict" where
  "power_table m x k = map (\<lambda>i. (int i, x ^ i mod m)) [0..<k]"

text \<open>
  The invariant of the search loop of \<^verbatim>\<open>order_of\<close>: after the primes with product
  \<open>P\<close>, the keys of \<^verbatim>\<open>powers\<close> are the positive divisors of \<open>P\<close>, every value is the
  power of the element that its key names, and none of them is 1.
\<close>

definition search_inv :: "int \<Rightarrow> int \<Rightarrow> dict \<Rightarrow> int \<Rightarrow> bool" where
  "search_inv m x powers P \<longleftrightarrow>
     distinct (map fst powers) \<and>
     dom (map_of powers) = {d. 0 < d \<and> d dvd P} \<and>
     (\<forall>k v. map_of powers k = Some v \<longrightarrow> v = x ^ nat k mod m \<and> v \<noteq> 1)"

section \<open>The states a ring can be in\<close>

definition Phi :: "collab \<Rightarrow> int \<Rightarrow> int" where
  "Phi c m = euler_phi c (factor c m)"

definition Lam :: "collab \<Rightarrow> int \<Rightarrow> int" where
  "Lam c m = carmichael_lambda c (factor c m)"

text \<open>
  The states that the methods of the class can bring about, starting from the constructor
  with a modulus of at least 2, whatever they return and also when they end by an
  exception.
\<close>

inductive reachable :: "collab \<Rightarrow> int \<Rightarrow> ring \<Rightarrow> bool" for c :: collab and m :: int where
  init: "2 \<le> m \<Longrightarrow> reachable c m (ModularRing m)"
| factorization: "reachable c m s \<Longrightarrow> reachable c m (snd (factorization c s))"
| euler: "reachable c m s \<Longrightarrow> reachable c m (snd (euler c s))"
| carmichael: "reachable c m s \<Longrightarrow> reachable c m (snd (carmichael c s))"
| carmichael_factorization:
    "reachable c m s \<Longrightarrow> reachable c m (snd (carmichael_factorization c s))"
| carmichael_primes: "reachable c m s \<Longrightarrow> reachable c m (snd (carmichael_primes c s))"
| is_cyclic: "reachable c m s \<Longrightarrow> reachable c m (snd (is_cyclic c s))"
| multiplicative_group:
    "reachable c m s \<Longrightarrow> reachable c m (snd (multiplicative_group c s))"
| generator: "reachable c m s \<Longrightarrow> generator c s = Some (r, s') \<Longrightarrow> reachable c m s'"
| as_cyclic_group:
    "reachable c m s \<Longrightarrow> as_cyclic_group c s = Some (r1, s') \<Longrightarrow> reachable c m s'"
| discrete_log:
    "reachable c m s \<Longrightarrow> discrete_log c s = Some (r1, s') \<Longrightarrow> reachable c m s'"
| all_orders: "reachable c m s \<Longrightarrow> all_orders c s = Some (r2, s') \<Longrightarrow> reachable c m s'"
| all_generators:
    "reachable c m s \<Longrightarrow> all_generators c s = Some (r3, s') \<Longrightarrow> reachable c m s'"
| order_of: "reachable c m s \<Longrightarrow> order_of c s x = Some (r, s') \<Longrightarrow> reachable c m s'"
| cyclic_subgroup_from:
    "reachable c m s \<Longrightarrow> cyclic_subgroup_from s x = Some (r2, s') \<Longrightarrow> reachable c m s'"

text \<open>
  What holds in all of them. The simple caches hold what the collaborators return; the
  order table is right on the units; a cached generator is a unit whose order is the
  size of the group; the cached realization and logarithm table are the ones of the
  cached generator.
\<close>

definition caches_inv :: "collab \<Rightarrow> int \<Rightarrow> ring \<Rightarrow> bool" where
  "caches_inv c m s \<longleftrightarrow>
     modulus s = m \<and>
     c_factorization s \<in> {None, Some (factor c m)} \<and>
     c_euler s \<in> {None, Some (Phi c m)} \<and>
     c_carmichael s \<in> {None, Some (Lam c m)} \<and>
     c_carmichael_factorization s \<in> {None, Some (factor c (Lam c m))} \<and>
     c_multiplicative_group s \<in> {None, Some (units m)}"

definition core_inv :: "collab \<Rightarrow> int \<Rightarrow> ring \<Rightarrow> bool" where
  "core_inv c m s \<longleftrightarrow>
     map_of (orders s) 1 = Some 1 \<and>
     (\<forall>x \<in> set (units m). \<forall>v. map_of (orders s) x = Some v \<longrightarrow> v = int (ord_mod m x)) \<and>
     (\<forall>g. c_generator s = Some g \<longrightarrow>
          g \<in> set (units m) \<and> int (ord_mod m g) = Phi c m \<and> Phi c m = Lam c m) \<and>
     (\<forall>cg. c_as_cyclic_group s = Some cg \<longrightarrow>
          (\<exists>g. c_generator s = Some g \<and> cg = power_table m g (ord_mod m g))) \<and>
     (\<forall>dl. c_discrete_log s = Some dl \<longrightarrow>
          (\<exists>cg. c_as_cyclic_group s = Some cg \<and> dl = invert_dict cg))"

definition ring_inv :: "collab \<Rightarrow> int \<Rightarrow> ring \<Rightarrow> bool" where
  "ring_inv c m s \<longleftrightarrow> 2 \<le> m \<and> caches_inv c m s \<and> core_inv c m s"

text \<open>Two states that differ at most in the simple caches.\<close>

definition same_core :: "ring \<Rightarrow> ring \<Rightarrow> bool" where
  "same_core s s' \<longleftrightarrow>
     modulus s' = modulus s \<and> orders s' = orders s \<and> c_generator s' = c_generator s \<and>
     c_as_cyclic_group s' = c_as_cyclic_group s \<and> c_discrete_log s' = c_discrete_log s"

text \<open>
  Collaborators for the modulus 7 of the examples of the specification: 7 is prime, its
  totient and its Carmichael exponent are \<open>6 = 2 * 3\<close>, and its units are 1 to 6.
\<close>

definition collab7 :: collab where
  "collab7 =
     \<lparr> factor = (\<lambda>n. if n = 7 then [(7, 1)] else if n = 6 then [(2, 1), (3, 1)] else []),
       euler_phi = (\<lambda>f. 6),
       carmichael_lambda = (\<lambda>f. 6),
       prime_to = (\<lambda>f. [1, 2, 3, 4, 5, 6]) \<rparr>"

section \<open>Correctness of the Euclidean suite and of modular powers\<close>

lemma gcd_step: "a = q * b + r \<Longrightarrow> gcd b r = gcd a (b::int)"
  by (metis gcd.commute gcd_add_mult)

lemma nat_half_even: "0 \<le> e \<Longrightarrow> e mod 2 = 0 \<Longrightarrow> nat e = 2 * nat (e div 2)" for e :: int
proof -
  assume a: "0 \<le> e" "e mod 2 = 0"
  then have "e = 2 * (e div 2)" by presburger
  then have "nat e = nat (2 * (e div 2))" by simp
  also have "\<dots> = 2 * nat (e div 2)" by (simp add: nat_mult_distrib)
  finally show ?thesis .
qed

lemma nat_half_odd: "0 \<le> e \<Longrightarrow> e mod 2 \<noteq> 0 \<Longrightarrow> nat e = Suc (2 * nat (e div 2))" for e :: int
proof -
  assume a: "0 \<le> e" "e mod 2 \<noteq> 0"
  then have "e = 2 * (e div 2) + 1" by presburger
  then have "nat e = nat (2 * (e div 2) + 1)" by simp
  also have "\<dots> = Suc (nat (2 * (e div 2)))" using a by (simp add: Suc_nat_eq_nat_zadd1)
  also have "\<dots> = Suc (2 * nat (e div 2))" by (simp add: nat_mult_distrib)
  finally show ?thesis .
qed

lemma gcd_loop_eq: "gcd_loop a b = Inr (gcd a b)"
proof (induction a b rule: gcd_loop.induct)
  case (1 a b)
  show ?case
  proof (cases "b = 0")
    case True
    then show ?thesis by (simp add: gcd_loop.simps[of a 0])
  next
    case False
    then obtain q r where qr: "div_numth a b SMALL = Inr (q, r)" "a = q * b + r"
      by (rule div_numth_SMALL[of b a])
    have g: "gcd b r = gcd a b"
      using qr(2) by (rule gcd_step)
    have "gcd_loop a b = gcd_loop b r"
      using False qr(1) by (simp add: gcd_loop.simps[of a b])
    also have "\<dots> = Inr (gcd b r)"
      using False qr(1) by (rule "1.IH"[OF _ _ refl])
    finally show ?thesis using g by simp
  qed
qed

lemma gcd_numth_eq: "(a, b) \<noteq> (0, 0) \<Longrightarrow> gcd_numth a b = Inr (gcd a b)"
  by (simp add: gcd_numth_def gcd_loop_eq)

lemma bezout_loop_inv:
  assumes "b' \<noteq> 0" "a * xx + b * yy = b'" "a * x + b * y = r"
  shows "\<exists>xx' yy'. bezout_loop b' r xx x yy y = Inr (xx', yy') \<and>
           \<bar>a * xx' + b * yy'\<bar> = gcd b' r"
  using assms
proof (induction b' r xx x yy y rule: bezout_loop.induct)
  case (1 b' r xx x yy y)
  show ?case
  proof (cases "r = 0")
    case True
    then show ?thesis using "1.prems" by (simp add: bezout_loop.simps[of b' 0])
  next
    case False
    then obtain q r' where qr: "div_numth b' r SMALL = Inr (q, r')" "b' = q * r + r'"
      by (rule div_numth_SMALL[of r b'])
    have g: "gcd r r' = gcd b' r"
      using qr(2) by (rule gcd_step)
    have i1: "a * x + b * y = r" by (rule "1.prems"(3))
    have i2: "a * (- q * x + xx) + b * (- q * y + yy) = r'"
    proof -
      have "a * (- q * x + xx) + b * (- q * y + yy) = (a * xx + b * yy) - q * (a * x + b * y)"
        by (simp add: algebra_simps)
      also have "\<dots> = b' - q * r" using "1.prems" by simp
      finally show ?thesis using qr(2) by simp
    qed
    have step: "bezout_loop b' r xx x yy y =
                bezout_loop r r' x (- q * x + xx) y (- q * y + yy)"
      using False qr(1) by (simp add: bezout_loop.simps[of b' r])
    from "1.IH"[OF False qr(1) refl False i1 i2] g step show ?thesis by simp
  qed
qed

lemma bezout_correct:
  assumes "(a, b) \<noteq> (0, 0)"
  shows "\<exists>x y. bezout a b = Inr (x, y) \<and> gcd_numth a b = Inr (a * x + b * y) \<and>
           a * x + b * y = gcd a b \<and> 0 < a * x + b * y"
proof (cases "b = 0")
  case True
  with assms have "a \<noteq> 0" by simp
  with True show ?thesis
    by (auto simp: bezout_def gcd_numth_eq abs_if)
next
  case False
  then obtain q r where qr: "div_numth a b SMALL = Inr (q, r)" "a = q * b + r"
    by (rule div_numth_SMALL[of b a])
  have g: "gcd b r = gcd a b"
    using qr(2) by (rule gcd_step)
  have "a * 0 + b * 1 = b" "a * 1 + b * (- q) = r"
    using qr(2) by simp_all
  from bezout_loop_inv[OF False this] obtain xx yy where
    l: "bezout_loop b r 0 1 1 (- q) = Inr (xx, yy)" and v: "\<bar>a * xx + b * yy\<bar> = gcd a b"
    using g by auto
  have pos: "0 < gcd a b" using False by simp
  show ?thesis
  proof (cases "a * xx + b * yy > 0")
    case True
    with False qr(1) l v pos assms show ?thesis
      by (simp add: bezout_def gcd_numth_eq)
  next
    case nonpos: False
    have res: "bezout a b = Inr (- xx, - yy)"
      using nonpos False qr(1) l by (simp add: bezout_def)
    have val: "a * (- xx) + b * (- yy) = gcd a b"
      using v pos nonpos by simp
    have "gcd_numth a b = Inr (a * (- xx) + b * (- yy))"
      unfolding val using assms by (rule gcd_numth_eq)
    moreover have "0 < a * (- xx) + b * (- yy)"
      using pos by (simp only: val)
    ultimately show ?thesis using res val by blast
  qed
qed

lemma mod_power_nonneg:
  "0 \<le> exp \<Longrightarrow> 2 \<le> m \<Longrightarrow> mod_power num exp m = Inr (num ^ nat exp mod m)"
proof (induction num exp m rule: mod_power.induct)
  case (1 num exp m)
  consider "exp = 0" | "exp = 1" | "exp \<ge> 2" "exp mod 2 = 0" | "exp \<ge> 2" "exp mod 2 \<noteq> 0"
    using "1.prems"(1) by linarith
  then show ?case
  proof cases
    case 1
    then show ?thesis using "1.prems" by (simp add: mod_power.simps[of num 0 m])
  next
    case 2
    then show ?thesis using "1.prems" by (simp add: mod_power.simps[of num 1 m])
  next
    case 3
    define k where "k = nat (exp div 2)"
    have e: "nat exp = 2 * k" using 3 by (simp add: k_def nat_half_even)
    have c: "\<not> m < 2" "\<not> exp < 0" "exp \<noteq> 0" "exp \<noteq> 1" using 3 "1.prems" by auto
    have "mod_power num exp m = mod_power (num * num) (exp div 2) m"
      using c 3(2) by (simp add: mod_power.simps[of num exp m])
    also have "\<dots> = Inr ((num * num) ^ k mod m)"
      unfolding k_def using "1.IH"(2)[OF c 3(2)] 3 "1.prems" by simp
    finally show ?thesis by (simp add: e power_mult power2_eq_square)
  next
    case 4
    define k where "k = nat (exp div 2)"
    have e: "nat exp = Suc (2 * k)" using 4 by (simp add: k_def nat_half_odd)
    have c: "\<not> m < 2" "\<not> exp < 0" "exp \<noteq> 0" "exp \<noteq> 1" using 4 "1.prems" by auto
    have ih: "mod_power (num * num) (exp div 2) m = Inr ((num * num) ^ k mod m)"
      unfolding k_def using "1.IH"(3)[OF c 4(2)] 4 "1.prems" by simp
    have "mod_power num exp m = Inr ((num * ((num * num) ^ k mod m)) mod m)"
      using c 4(2) ih by (simp add: mod_power.simps[of num exp m])
    then show ?thesis by (simp add: e power_mult power2_eq_square mod_mult_right_eq)
  qed
qed

text \<open>The loop of \<^verbatim>\<open>padic\<close>: it returns exactly when it starts from a nonzero number.\<close>

lemma padic_loop_Some_nonzero:
  assumes "padic_loop base exp rest = Some y"
  shows "rest \<noteq> 0"
proof (rule padic_loop.raw_induct[where P = "\<lambda>base exp rest y. rest \<noteq> 0", OF _ assms])
  fix f :: "int \<Rightarrow> int \<Rightarrow> int \<Rightarrow> (int \<times> int) option" and base exp rest y
  assume ih: "\<And>base exp rest y. f base exp rest = Some y \<Longrightarrow> rest \<noteq> 0"
    and eq: "(if rest mod base = 0 then f base (exp + 1) (rest div base)
              else Some (exp, rest)) = Some y"
  show "rest \<noteq> 0"
  proof
    assume "rest = 0"
    with eq have "f base (exp + 1) 0 = Some y" by simp
    from ih[OF this] show False by simp
  qed
qed

lemma padic_loop_zero: "padic_loop base exp 0 = None"
  using padic_loop_Some_nonzero[of base exp 0] by (cases "padic_loop base exp 0") auto

lemma padic_loop_returns:
  assumes "2 \<le> base" "rest \<noteq> 0"
  shows "\<exists>e r. padic_loop base exp rest = Some (e, r) \<and> exp \<le> e \<and>
           rest = base ^ nat (e - exp) * r \<and> r mod base \<noteq> 0"
  using assms(2)
proof (induction "nat \<bar>rest\<bar>" arbitrary: rest exp rule: less_induct)
  case less
  show ?case
  proof (cases "rest mod base = 0")
    case False
    then have "padic_loop base exp rest = Some (exp, rest)"
      by (simp add: padic_loop.simps[of base exp rest])
    with False show ?thesis by simp
  next
    case True
    define rest' where "rest' = rest div base"
    have eq: "rest = base * rest'" using True by (auto simp: rest'_def)
    have nz: "rest' \<noteq> 0" using eq less.prems by auto
    have "\<bar>rest\<bar> = base * \<bar>rest'\<bar>" using eq assms(1) by (simp add: abs_mult)
    moreover have "2 * \<bar>rest'\<bar> \<le> base * \<bar>rest'\<bar>"
      using assms(1) by (intro mult_right_mono) simp_all
    moreover have "\<bar>rest'\<bar> > 0" using nz by simp
    ultimately have "\<bar>rest'\<bar> < \<bar>rest\<bar>" by linarith
    then have "nat \<bar>rest'\<bar> < nat \<bar>rest\<bar>" by simp
    from less.hyps[OF this nz, of "exp + 1"] obtain e r where
      r: "padic_loop base (exp + 1) rest' = Some (e, r)" "exp + 1 \<le> e"
         "rest' = base ^ nat (e - (exp + 1)) * r" "r mod base \<noteq> 0"
      by blast
    have res: "padic_loop base exp rest = Some (e, r)"
      using True r(1) by (simp add: padic_loop.simps[of base exp rest] rest'_def)
    have "nat (e - exp) = Suc (nat (e - (exp + 1)))" using r(2) by simp
    then have "rest = base ^ nat (e - exp) * r" using eq r(3) by simp
    with res show ?thesis using r(2,4) by simp
  qed
qed

text \<open>
  Default mode: the quotient and remainder always reconstruct the numerator, and the
  remainder lies in \<open>[0, |d|]\<close>; it reaches \<open>|d|\<close> exactly when a negative divisor divides
  a nonzero numerator.
\<close>

lemma div_numth_default:
  assumes "d \<noteq> 0"
  obtains q r where "div_numth num d None = Inr (q, r)" "num = q * d + r" "0 \<le> r" "r \<le> \<bar>d\<bar>"
    "r = \<bar>d\<bar> \<longleftrightarrow> d < 0 \<and> num \<noteq> 0 \<and> d dvd num"
proof (cases "d > 0 \<or> num = 0")
  case True
  have r: "div_numth num d None = Inr (num div d, num mod d)"
    using assms True by (simp add: div_numth_def)
  have b: "0 \<le> num mod d \<and> num mod d < \<bar>d\<bar>"
  proof (cases "d > 0")
    case True
    then show ?thesis by simp
  next
    case False
    with True assms show ?thesis by simp
  qed
  show ?thesis
  proof (rule that[OF r])
    show "num = num div d * d + num mod d" by simp
    show "0 \<le> num mod d" "num mod d \<le> \<bar>d\<bar>" using b by simp_all
    show "num mod d = \<bar>d\<bar> \<longleftrightarrow> d < 0 \<and> num \<noteq> 0 \<and> d dvd num" using b True by auto
  qed
next
  case False
  then have d: "d < 0" "num \<noteq> 0" using assms by simp_all
  have r: "div_numth num d None = Inr (num div d + 1, num mod d + \<bar>d\<bar>)"
    using d by (simp add: div_numth_def)
  have lo: "d < num mod d" using d(1) by (rule neg_mod_bound)
  have hi: "num mod d \<le> 0" using d(1) by (rule neg_mod_sign)
  show ?thesis
  proof (rule that[OF r])
    have "(num div d + 1) * d + (num mod d + \<bar>d\<bar>) = num div d * d + num mod d + (d + \<bar>d\<bar>)"
      by (simp add: algebra_simps)
    then show "num = (num div d + 1) * d + (num mod d + \<bar>d\<bar>)" using d(1) by simp
    show "0 \<le> num mod d + \<bar>d\<bar>" using lo d(1) by linarith
    show "num mod d + \<bar>d\<bar> \<le> \<bar>d\<bar>" using hi by linarith
    have "num mod d + \<bar>d\<bar> = \<bar>d\<bar> \<longleftrightarrow> num mod d = 0" by linarith
    then show "num mod d + \<bar>d\<bar> = \<bar>d\<bar> \<longleftrightarrow> d < 0 \<and> num \<noteq> 0 \<and> d dvd num"
      using d by (simp add: dvd_eq_mod_eq_0)
  qed
qed

lemma mod_inverse_small_modulus: "m < 1 \<Longrightarrow> mod_inverse num m = Inl InvalidModulus"
  by (simp add: mod_inverse_def)

lemma mod_inverse_modulus_one: "mod_inverse num 1 = Inr 0"
proof -
  have g: "gcd_numth num 1 = Inr 1" by (simp add: gcd_numth_eq)
  obtain x y where "bezout num 1 = Inr (x, y)"
    using bezout_correct[of num 1] by auto
  with g show ?thesis by (simp add: mod_inverse_def)
qed

lemma jacobi_even: "b mod 2 = 0 \<Longrightarrow> jacobi a b = Some (Inl (NameError ''num''))"
  by (simp add: jacobi.simps)


section \<open>Orders of units\<close>

lemma pow_mod_one_coprime:
  fixes x m :: int
  assumes "0 < k" "x ^ k mod m = 1"
  shows "coprime x m"
  by (metis assms(1,2) coprime_1_left coprime_mod_left_iff
    coprime_power_left_iff mod_by_0 not_gr_zero)

lemma coprime_cancel_pow_mod:
  fixes x m :: int
  assumes "coprime x m" "i \<le> j" "x ^ i mod m = x ^ j mod m" "2 \<le> m"
  shows "x ^ (j - i) mod m = 1"
proof -
  have "m dvd x ^ j - x ^ i" using assms(3) by (metis mod_eq_dvd_iff)
  moreover have "x ^ j - x ^ i = x ^ i * (x ^ (j - i) - 1)"
    using assms(2) by (simp add: algebra_simps flip: power_add)
  moreover have "coprime m (x ^ i)" using assms(1) by (simp add: coprime_commute)
  ultimately have "m dvd x ^ (j - i) - 1" by (simp add: coprime_dvd_mult_right_iff)
  then have "x ^ (j - i) mod m = 1 mod m" by (metis mod_eq_dvd_iff)
  with assms(4) show ?thesis by simp
qed

lemma unit_has_order:
  fixes x m :: int
  assumes "2 \<le> m" "coprime x m"
  shows "\<exists>k. 0 < k \<and> x ^ k mod m = 1"
proof -
  let ?f = "\<lambda>i::nat. x ^ i mod m"
  have "?f ` {0..nat m} \<subseteq> {0..<m}" using assms(1) by auto
  then have "card (?f ` {0..nat m}) \<le> card {0..<m}" by (intro card_mono) auto
  then have "card (?f ` {0..nat m}) < card {0..nat m}" using assms(1) by simp
  then have "\<not> inj_on ?f {0..nat m}" by (rule pigeonhole)
  then obtain i j where ij: "i \<noteq> j" "?f i = ?f j" by (auto simp: inj_on_def)
  show ?thesis
  proof (cases "i < j")
    case True
    with coprime_cancel_pow_mod[OF assms(2) _ ij(2) assms(1)] show ?thesis
      by (intro exI[of _ "j - i"]) simp
  next
    case False
    with ij(1) have "j < i" by simp
    with coprime_cancel_pow_mod[OF assms(2) _ ij(2)[symmetric] assms(1)] show ?thesis
      by (intro exI[of _ "i - j"]) simp
  qed
qed

lemma ord_mod_props:
  fixes x m :: int
  assumes "2 \<le> m" "coprime x m"
  shows "0 < ord_mod m x" and "x ^ ord_mod m x mod m = 1"
proof -
  from unit_has_order[OF assms] obtain k where "0 < k \<and> x ^ k mod m = 1" by blast
  then have "0 < ord_mod m x \<and> x ^ ord_mod m x mod m = 1"
    unfolding ord_mod_def by (rule LeastI)
  then show "0 < ord_mod m x" and "x ^ ord_mod m x mod m = 1" by simp_all
qed

lemma ord_mod_le: "0 < k \<Longrightarrow> x ^ k mod m = 1 \<Longrightarrow> ord_mod m x \<le> k"
  unfolding ord_mod_def by (rule Least_le) simp

lemma ord_mod_least: "0 < k \<Longrightarrow> k < ord_mod m x \<Longrightarrow> x ^ k mod m \<noteq> 1"
  using ord_mod_le[of k x m] by auto

lemma ord_mod_eqI:
  assumes "0 < k" "x ^ k mod m = 1" "\<And>j. 0 < j \<Longrightarrow> j < k \<Longrightarrow> x ^ j mod m \<noteq> 1"
  shows "ord_mod m x = k"
  unfolding ord_mod_def
  by (rule Least_equality) (use assms in \<open>auto simp: not_less[symmetric]\<close>)

lemma pow_mod_one_iff_ord_dvd:
  fixes x m :: int
  assumes "2 \<le> m" "coprime x m"
  shows "x ^ e mod m = 1 \<longleftrightarrow> ord_mod m x dvd e"
proof -
  let ?n = "ord_mod m x"
  have n: "0 < ?n" "x ^ ?n mod m = 1" using ord_mod_props[OF assms] by auto
  have red: "x ^ e mod m = x ^ (e mod ?n) mod m"
  proof -
    have "x ^ e = (x ^ ?n) ^ (e div ?n) * x ^ (e mod ?n)"
      by (simp flip: power_mult power_add)
    then have "x ^ e mod m = ((x ^ ?n mod m) ^ (e div ?n) mod m) * (x ^ (e mod ?n)) mod m"
      by (simp add: power_mod mod_mult_left_eq)
    then show ?thesis using n(2) assms(1) by simp
  qed
  show ?thesis
  proof
    assume "x ^ e mod m = 1"
    with red have "x ^ (e mod ?n) mod m = 1" by simp
    moreover have "e mod ?n < ?n" using n(1) by simp
    ultimately have "e mod ?n = 0" using ord_mod_least[of "e mod ?n" m x] by auto
    then show "?n dvd e" by auto
  next
    assume "?n dvd e"
    then have "e mod ?n = 0" by auto
    with red assms(1) show "x ^ e mod m = 1" by simp
  qed
qed

lemma pow_mod_eq_iff:
  fixes x m :: int
  assumes "2 \<le> m" "coprime x m" "i \<le> j"
  shows "x ^ i mod m = x ^ j mod m \<longleftrightarrow> ord_mod m x dvd (j - i)"
proof
  assume "x ^ i mod m = x ^ j mod m"
  from coprime_cancel_pow_mod[OF assms(2,3) this assms(1)]
  show "ord_mod m x dvd (j - i)" using pow_mod_one_iff_ord_dvd[OF assms(1,2)] by simp
next
  assume "ord_mod m x dvd (j - i)"
  then have "x ^ (j - i) mod m = 1" using pow_mod_one_iff_ord_dvd[OF assms(1,2)] by simp
  moreover have "x ^ j = x ^ i * x ^ (j - i)" using assms(3) by (simp flip: power_add)
  ultimately have "x ^ j mod m = (x ^ i * 1) mod m"
    by (metis mod_mult_right_eq)
  then show "x ^ i mod m = x ^ j mod m" by simp
qed

lemma pow_mod_inj_on:
  fixes x m :: int
  assumes "2 \<le> m" "coprime x m"
  shows "inj_on (\<lambda>i. x ^ i mod m) {0..<ord_mod m x}"
proof (rule inj_onI)
  fix i j assume ij: "i \<in> {0..<ord_mod m x}" "j \<in> {0..<ord_mod m x}"
    and eq: "x ^ i mod m = x ^ j mod m"
  have aux: "a = b" if "a \<le> b" "b < ord_mod m x" "x ^ a mod m = x ^ b mod m" for a b
  proof -
    have "ord_mod m x dvd (b - a)" using pow_mod_eq_iff[OF assms that(1)] that(3) by simp
    moreover have "b - a < ord_mod m x" using that by simp
    ultimately have "b - a = 0" by (meson dvd_imp_le not_less zero_less_iff_neq_zero)
    with that(1) show ?thesis by simp
  qed
  show "i = j"
  proof (cases "i \<le> j")
    case True
    then show ?thesis using aux[of i j] ij eq by simp
  next
    case False
    then show ?thesis using aux[of j i] ij eq by simp
  qed
qed


lemma in_units_iff: "x \<in> set (units m) \<longleftrightarrow> 1 \<le> x \<and> x < m \<and> coprime x m"
  by (auto simp: units_def coprime_iff_gcd_eq_1)

lemma distinct_units: "distinct (units m)"
  by (simp add: units_def)

lemma sorted_units: "sorted (units m)"
  unfolding units_def by (rule sorted_wrt_filter) simp

lemma one_in_units: "2 \<le> m \<Longrightarrow> 1 \<in> set (units m)"
  by (simp add: in_units_iff)

lemma pow_mod_in_units:
  fixes g m :: int
  assumes "2 \<le> m" "coprime g m"
  shows "g ^ i mod m \<in> set (units m)"
proof -
  have c: "coprime (g ^ i mod m) m" using assms by (simp add: coprime_mod_left_iff)
  have "0 \<le> g ^ i mod m" "g ^ i mod m < m" using assms(1) by simp_all
  moreover have "g ^ i mod m \<noteq> 0"
  proof
    assume "g ^ i mod m = 0"
    with c have "coprime 0 m" by simp
    with assms(1) show False by simp
  qed
  ultimately show ?thesis using c by (simp add: in_units_iff)
qed

lemma generator_covers_units:
  fixes g m :: int
  assumes "2 \<le> m" "coprime g m" "ord_mod m g = length (units m)"
  shows "(\<lambda>i. g ^ i mod m) ` {0..<ord_mod m g} = set (units m)"
proof (rule card_subset_eq)
  show "finite (set (units m))" by simp
  show "(\<lambda>i. g ^ i mod m) ` {0..<ord_mod m g} \<subseteq> set (units m)"
    using pow_mod_in_units[OF assms(1,2)] by auto
  have "card ((\<lambda>i. g ^ i mod m) ` {0..<ord_mod m g}) = ord_mod m g"
    using pow_mod_inj_on[OF assms(1,2)] by (simp add: card_image)
  also have "\<dots> = card (set (units m))"
    using assms(3) by (simp add: distinct_card distinct_units)
  finally show "card ((\<lambda>i. g ^ i mod m) ` {0..<ord_mod m g}) = card (set (units m))" .
qed

lemma dvd_mult_gcd_iff:
  fixes n k j :: nat
  assumes "0 < n"
  shows "n dvd k * j \<longleftrightarrow> (n div gcd k n) dvd j"
proof -
  define d where "d = gcd k n"
  have d0: "0 < d" using assms by (simp add: d_def)
  obtain n' where n': "n = n' * d" unfolding d_def by (metis dvd_def gcd_dvd2 mult.commute)
  obtain k' where k': "k = k' * d" unfolding d_def by (metis dvd_def gcd_dvd1 mult.commute)
  have nd: "n div d = n'" and kd: "k div d = k'" using d0 n' k' by simp_all
  have "coprime (k div gcd k n) (n div gcd k n)"
    using assms by (intro div_gcd_coprime) simp
  then have cop: "coprime n' k'" using nd kd by (simp add: d_def coprime_commute)
  have "n dvd k * j \<longleftrightarrow> n' * d dvd (k' * j) * d"
    by (simp add: n' k' ac_simps)
  also have "\<dots> \<longleftrightarrow> n' dvd k' * j" using d0 by simp
  also have "\<dots> \<longleftrightarrow> n' dvd j" using cop by (simp add: coprime_dvd_mult_right_iff)
  finally show ?thesis using nd by (simp add: d_def)
qed

lemma ord_mod_power:
  fixes g m :: int
  assumes "2 \<le> m" "coprime g m"
  shows "ord_mod m (g ^ k mod m) = ord_mod m g div gcd k (ord_mod m g)"
proof -
  let ?n = "ord_mod m g" and ?y = "g ^ k mod m"
  let ?d = "gcd k ?n"
  have n: "0 < ?n" using ord_mod_props[OF assms] by simp
  have d: "0 < ?d" "?d dvd ?n" "?d dvd k" using n by auto
  have cy: "coprime ?y m" using assms by (simp add: coprime_mod_left_iff)
  have pw: "?y ^ j mod m = g ^ (k * j) mod m" for j
    by (simp add: power_mod power_mult)
  have one_iff: "?y ^ j mod m = 1 \<longleftrightarrow> ?n dvd k * j" for j
    unfolding pw by (rule pow_mod_one_iff_ord_dvd[OF assms])
  have key: "?n dvd k * j \<longleftrightarrow> (?n div ?d) dvd j" for j
    using n by (rule dvd_mult_gcd_iff)
  show ?thesis
  proof (rule ord_mod_eqI)
    show "0 < ?n div ?d" using n d by (simp add: div_greater_zero_iff dvd_imp_le)
    show "?y ^ (?n div ?d) mod m = 1" using one_iff key by simp
    fix j assume "0 < j" "j < ?n div ?d"
    then have "\<not> (?n div ?d) dvd j" by (meson dvd_imp_le not_less)
    then show "?y ^ j mod m \<noteq> 1" using one_iff key by simp
  qed
qed

lemma is_prime_coprime:
  assumes "is_prime p" "\<not> p dvd d"
  shows "coprime p d"
proof -
  let ?g = "gcd p d"
  have g: "?g dvd p" "?g dvd d" "0 \<le> ?g" by simp_all
  have p: "2 \<le> p" using assms(1) by (simp add: is_prime_def)
  have "?g \<noteq> 0" using p by auto
  moreover have "?g \<le> p" using g(1) p by (intro zdvd_imp_le) simp_all
  moreover have "?g \<noteq> p" using assms(2) g(2) by metis
  moreover have "\<not> (2 \<le> ?g \<and> ?g < p)"
    using assms(1) g(1) by (auto simp: is_prime_def)
  ultimately have "?g = 1" using g(3) by linarith
  then show ?thesis by (simp add: coprime_iff_gcd_eq_1)
qed

lemma dvd_mult_prime_cases:
  fixes d P p :: int
  assumes "is_prime p" "d dvd P * p" "0 < d"
  obtains "d dvd P" | d' where "d = p * d'" "d' dvd P" "0 < d'"
proof (cases "p dvd d")
  case False
  then have "coprime d p" using is_prime_coprime[OF assms(1)] by (simp add: coprime_commute)
  with assms(2) have "d dvd P" by (simp add: coprime_dvd_mult_left_iff)
  then show ?thesis by (rule that(1))
next
  case True
  then obtain d' where d': "d = p * d'" by auto
  have p: "0 < p" using assms(1) by (simp add: is_prime_def)
  have "p * d' dvd p * P" using assms(2) d' by (simp add: mult.commute)
  then have "d' dvd P" using p by simp
  moreover have "0 < d'" using assms(3) d' p by (simp add: zero_less_mult_iff)
  ultimately show ?thesis using d' by (intro that(2)) auto
qed

section \<open>Every order divides the largest order\<close>

lemma prime_divisor_exists: "2 \<le> n \<Longrightarrow> \<exists>p. is_prime_nat p \<and> p dvd n"
proof (induction n rule: less_induct)
  case (less n)
  show ?case
  proof (cases "is_prime_nat n")
    case True
    then show ?thesis by (intro exI[of _ n]) simp
  next
    case False
    with less.prems obtain d where d: "d dvd n" "d \<noteq> 1" "d \<noteq> n"
      by (auto simp: is_prime_nat_def)
    have "d \<noteq> 0" using d(1) less.prems by (metis dvd_0_left not_numeral_le_zero)
    moreover have "d \<le> n" using d(1) less.prems by (intro dvd_imp_le) simp_all
    ultimately have "2 \<le> d" "d < n" using d(2,3) by simp_all
    from less.IH[OF this(2,1)] obtain p where "is_prime_nat p" "p dvd d" by blast
    with d(1) show ?thesis by (meson dvd_trans)
  qed
qed

lemma is_prime_nat_coprime:
  assumes "is_prime_nat p" "\<not> p dvd u"
  shows "coprime (p ^ a) u"
proof -
  have "gcd p u dvd p" by simp
  with assms(1) have "gcd p u = 1 \<or> gcd p u = p" by (simp add: is_prime_nat_def)
  moreover have "gcd p u \<noteq> p" using assms(2) by (metis gcd_dvd2)
  ultimately have "coprime p u" by (simp add: coprime_iff_gcd_eq_1)
  then show ?thesis by simp
qed

lemma prime_power_split:
  fixes n p :: nat
  assumes "0 < n" "2 \<le> p"
  shows "\<exists>k u. n = p ^ k * u \<and> \<not> p dvd u"
  using assms(1)
proof (induction n rule: less_induct)
  case (less n)
  show ?case
  proof (cases "p dvd n")
    case False
    then show ?thesis by (intro exI[of _ 0] exI[of _ n]) simp
  next
    case True
    then obtain n1 where n1: "n = p * n1" by auto
    with less.prems assms(2) have "0 < n1" "n1 < n" by simp_all
    from less.IH[OF this(2,1)] obtain k u where "n1 = p ^ k * u" "\<not> p dvd u" by blast
    with n1 show ?thesis by (intro exI[of _ "Suc k"] exI[of _ u]) simp
  qed
qed

lemma prime_power_not_dividing:
  fixes r N :: nat
  assumes "0 < r" "\<not> r dvd N"
  shows "\<exists>p a. is_prime_nat p \<and> p ^ a dvd r \<and> \<not> p ^ a dvd N"
  using assms
proof (induction r rule: less_induct)
  case (less r)
  have r2: "2 \<le> r" using less.prems by (cases "r = 1") auto
  from prime_divisor_exists[OF r2] obtain p where p: "is_prime_nat p" "p dvd r" by blast
  have p2: "2 \<le> p" using p(1) by (simp add: is_prime_nat_def)
  from p(2) obtain r0 where r0: "r = p * r0" by auto
  with less.prems(1) p2 have r0': "0 < r0" "r0 < r" by simp_all
  show ?case
  proof (cases "r0 dvd N")
    case False
    from less.IH[OF r0'(2,1) False] obtain p' a' where
      "is_prime_nat p'" "p' ^ a' dvd r0" "\<not> p' ^ a' dvd N" by blast
    moreover have "r0 dvd r" using r0 by simp
    ultimately show ?thesis by (meson dvd_trans)
  next
    case True
    from prime_power_split[OF less.prems(1) p2] obtain a u where
      au: "r = p ^ a * u" "\<not> p dvd u" by blast
    have a0: "a \<noteq> 0" using au p(2) by (cases a) auto
    then obtain a1 where a1: "a = Suc a1" by (cases a) auto
    have "p * r0 = p ^ Suc a1 * u" using r0 au(1) a1 by metis
    then have "p * r0 = p * (p ^ a1 * u)" by (simp only: power_Suc mult.assoc)
    then have "r0 = p ^ a1 * u" using p2 by auto
    then have "u dvd N" using True by (metis dvd_mult_right)
    have "\<not> p ^ a dvd N"
    proof
      assume "p ^ a dvd N"
      with \<open>u dvd N\<close> is_prime_nat_coprime[OF p(1) au(2), of a] have "p ^ a * u dvd N"
        by (intro divides_mult)
      with au(1) less.prems(2) show False by simp
    qed
    moreover have "p ^ a dvd r" using au(1) by simp
    ultimately show ?thesis using p(1) by blast
  qed
qed

lemma coprime_parts_exceeding:
  fixes r N :: nat
  assumes "0 < r" "0 < N" "\<not> r dvd N"
  shows "\<exists>q n'. q dvd r \<and> n' dvd N \<and> coprime q n' \<and> N < q * n'"
proof -
  from prime_power_not_dividing[OF assms(1,3)] obtain p a where
    p: "is_prime_nat p" "p ^ a dvd r" "\<not> p ^ a dvd N" by blast
  have p2: "2 \<le> p" using p(1) by (simp add: is_prime_nat_def)
  from prime_power_split[OF assms(2) p2] obtain b n' where
    bn: "N = p ^ b * n'" "\<not> p dvd n'" by blast
  have "b < a"
  proof (rule ccontr)
    assume "\<not> b < a"
    then have "p ^ a dvd p ^ b" by (simp add: le_imp_power_dvd)
    then have "p ^ a dvd N" using bn(1) by simp
    with p(3) show False by simp
  qed
  then have "p ^ b < p ^ a" using p2 by simp
  moreover have "0 < n'" using bn(1) assms(2) by (cases n') auto
  ultimately have "N < p ^ a * n'" using bn(1) by simp
  moreover have "coprime (p ^ a) n'" using p(1) bn(2) by (rule is_prime_nat_coprime)
  moreover have "n' dvd N" using bn(1) by simp
  ultimately show ?thesis using p(2) by blast
qed


lemma ord_mod_mod: "ord_mod m (x mod m) = ord_mod m x"
  by (simp add: ord_mod_def power_mod)

lemma ord_mod_mult_coprime:
  fixes a b m :: int
  assumes m: "2 \<le> m" and a: "coprime a m" and b: "coprime b m"
    and cop: "coprime (ord_mod m a) (ord_mod m b)"
  shows "ord_mod m (a * b) = ord_mod m a * ord_mod m b"
proof -
  let ?r = "ord_mod m a" and ?s = "ord_mod m b" and ?t = "ord_mod m (a * b)"
  have ab: "coprime (a * b) m" using a b by simp
  note ra = ord_mod_props[OF m a] and sb = ord_mod_props[OF m b] and tab = ord_mod_props[OF m ab]
  have one: "x ^ (k * j) mod m = 1" if "x ^ k mod m = 1" for x :: int and k j
  proof -
    have "x ^ (k * j) mod m = (x ^ k mod m) ^ j mod m" by (simp add: power_mult power_mod)
    then show ?thesis using that m by simp
  qed
  have "(a * b) ^ (?r * ?s) mod m = (a ^ (?r * ?s) mod m) * (b ^ (?s * ?r) mod m) mod m"
    by (simp add: power_mult_distrib mod_mult_eq mult.commute)
  then have "(a * b) ^ (?r * ?s) mod m = 1"
    using one[OF ra(2), of ?s] one[OF sb(2), of ?r] m by simp
  then have t_dvd: "?t dvd ?r * ?s" using pow_mod_one_iff_ord_dvd[OF m ab] by simp
  have r_dvd: "?r dvd ?t"
  proof -
    have "(a * b) ^ (?t * ?s) mod m = 1" using one[OF tab(2)] .
    moreover have "(a * b) ^ (?t * ?s) mod m =
                   (a ^ (?t * ?s) mod m) * (b ^ (?s * ?t) mod m) mod m"
      by (simp add: power_mult_distrib mod_mult_eq mult.commute)
    ultimately have "a ^ (?t * ?s) mod m = 1" using one[OF sb(2), of ?t] m by simp
    then have "?r dvd ?t * ?s" using pow_mod_one_iff_ord_dvd[OF m a] by simp
    then show ?thesis using cop by (simp add: coprime_dvd_mult_left_iff)
  qed
  have s_dvd: "?s dvd ?t"
  proof -
    have "(a * b) ^ (?t * ?r) mod m = 1" using one[OF tab(2)] .
    moreover have "(a * b) ^ (?t * ?r) mod m =
                   (a ^ (?r * ?t) mod m) * (b ^ (?t * ?r) mod m) mod m"
      by (simp add: power_mult_distrib mod_mult_eq mult.commute)
    ultimately have "b ^ (?t * ?r) mod m = 1" using one[OF ra(2), of ?t] m by simp
    then have "?s dvd ?t * ?r" using pow_mod_one_iff_ord_dvd[OF m b] by simp
    then show ?thesis using cop by (simp add: coprime_dvd_mult_left_iff coprime_commute)
  qed
  have "?r * ?s dvd ?t" using r_dvd s_dvd cop by (rule divides_mult)
  with t_dvd show ?thesis by (rule dvd_antisym)
qed

lemma ord_mod_power_dvd:
  fixes g m :: int
  assumes "2 \<le> m" "coprime g m" "q dvd ord_mod m g"
  shows "ord_mod m (g ^ (ord_mod m g div q)) = q"
proof -
  let ?n = "ord_mod m g"
  have n: "0 < ?n" using ord_mod_props[OF assms(1,2)] by simp
  from assms(3) obtain k where k: "?n = q * k" by auto
  have q: "0 < q" and k0: "0 < k" using n k by (auto intro: Nat.gr0I)
  have nq: "?n div q = k" using k q by simp
  have "ord_mod m (g ^ k) = ord_mod m (g ^ k mod m)"
    by (simp add: ord_mod_mod)
  also have "\<dots> = ?n div gcd k ?n" using assms(1,2) by (rule ord_mod_power)
  also have "gcd k ?n = k" using k by (metis dvd_triv_right gcd_nat.absorb1)
  also have "?n div k = q" using k k0 by simp
  finally show ?thesis using nq by simp
qed

text \<open>
  In the group of units every order divides the largest order.
\<close>

lemma ord_dvd_max_ord:
  fixes g x m :: int
  assumes m: "2 \<le> m" and g: "g \<in> set (units m)" and x: "x \<in> set (units m)"
    and max: "\<And>y. y \<in> set (units m) \<Longrightarrow> ord_mod m y \<le> ord_mod m g"
  shows "ord_mod m x dvd ord_mod m g"
proof (rule ccontr)
  assume nd: "\<not> ord_mod m x dvd ord_mod m g"
  let ?r = "ord_mod m x" and ?N = "ord_mod m g"
  have cg: "coprime g m" and cx: "coprime x m" using g x by (simp_all add: in_units_iff)
  have r: "0 < ?r" and N: "0 < ?N" using ord_mod_props(1)[OF m] cg cx by simp_all
  from coprime_parts_exceeding[OF r N nd] obtain q n' where
    qn: "q dvd ?r" "n' dvd ?N" "coprime q n'" "?N < q * n'" by blast
  let ?a = "x ^ (?r div q)" and ?b = "g ^ (?N div n')"
  have oa: "ord_mod m ?a = q" using m cx qn(1) by (rule ord_mod_power_dvd)
  have ob: "ord_mod m ?b = n'" using m cg qn(2) by (rule ord_mod_power_dvd)
  have ca: "coprime ?a m" and cb: "coprime ?b m" using cx cg by simp_all
  have "ord_mod m (?a * ?b) = q * n'"
    using ord_mod_mult_coprime[OF m ca cb] qn(3) oa ob by simp
  then have big: "ord_mod m ((?a * ?b) mod m) = q * n'" by (simp add: ord_mod_mod)
  have "coprime (?a * ?b) m" using ca cb by simp
  then have "(?a * ?b) ^ 1 mod m \<in> set (units m)" using m by (intro pow_mod_in_units)
  then have "(?a * ?b) mod m \<in> set (units m)" by simp
  from max[OF this] big qn(4) show False by simp
qed


section \<open>Dictionaries\<close>

lemma map_of_fold_update:
  "distinct (map fst d) \<Longrightarrow>
   map_of (fold (\<lambda>(k, v). AList.update k v) d acc) = map_of acc ++ map_of d"
proof (induction d arbitrary: acc)
  case Nil
  then show ?case by simp
next
  case (Cons a d)
  obtain k v where a: "a = (k, v)" by (cases a)
  from Cons.prems a have k: "k \<notin> dom (map_of d)" and d: "distinct (map fst d)"
    by (auto simp: dom_map_of_conv_image_fst)
  have "fold (\<lambda>(k, v). AList.update k v) (a # d) acc =
        fold (\<lambda>(k, v). AList.update k v) d (AList.update k v acc)"
    by (simp add: a)
  then have "map_of (fold (\<lambda>(k, v). AList.update k v) (a # d) acc) =
        map_of (AList.update k v acc) ++ map_of d"
    by (simp only: Cons.IH[OF d])
  also have "\<dots> = (map_of acc)(k \<mapsto> v) ++ map_of d"
    by (simp only: update_conv')
  also have "\<dots> = map_of acc ++ map_of (a # d)"
    using k a by (auto simp: map_add_def fun_eq_iff split: option.splits)
  finally show ?case .
qed

lemma distinct_fold_update:
  "distinct (map fst acc) \<Longrightarrow> distinct (map fst (fold (\<lambda>(k, v). AList.update k v) d acc))"
  by (induction d arbitrary: acc) (auto simp: distinct_update)

lemma dict_comp_fold:
  assumes "\<And>i. i \<in> set items \<Longrightarrow> keep i \<Longrightarrow> kv i = Inr (KV i)"
  shows "dict_comp keep kv items acc =
         Inr (fold (\<lambda>(k, v). AList.update k v) (map KV (filter keep items)) acc)"
  using assms
proof (induction items arbitrary: acc)
  case Nil
  then show ?case by simp
next
  case (Cons i items)
  show ?case
  proof (cases "keep i")
    case True
    then have "kv i = Inr (KV i)" using Cons.prems by simp
    then show ?thesis using True Cons.IH Cons.prems by (cases "KV i") simp
  next
    case False
    then show ?thesis using Cons.IH Cons.prems by simp
  qed
qed

lemma invert_dict_fold:
  "invert_dict d = fold (\<lambda>(k, v). AList.update k v) (map prod.swap d) []"
proof -
  have h: "(\<lambda>(k, v). AList.update k v) \<circ> prod.swap = (\<lambda>(e, x). AList.update x e)"
    by (auto simp: fun_eq_iff)
  show ?thesis unfolding invert_dict_def fold_map h by (rule refl)
qed

lemma map_of_invert_dict:
  assumes "distinct (map snd d)" "(e, v) \<in> set d"
  shows "map_of (invert_dict d) v = Some e"
proof -
  have dist: "distinct (map fst (map prod.swap d))" using assms(1) by (simp add: comp_def)
  have "(v, e) \<in> set (map prod.swap d)" using assms(2) by force
  with dist have "map_of (map prod.swap d) v = Some e" by simp
  then show ?thesis by (simp add: invert_dict_fold map_of_fold_update[OF dist])
qed

lemma prod_list_counter_elements:
  "prod_list (counter_elements f) = prod_list (map (\<lambda>(p, e). p ^ nat e) f)"
  by (induction f) (auto simp: counter_elements_def prod_list_replicate)

lemma set_counter_elements: "set (counter_elements f) \<subseteq> fst ` set f"
  by (force simp: counter_elements_def)

lemma counter_elements_factorization:
  assumes "factorization_of f n"
  shows "prod_list (counter_elements f) = n" and "\<forall>p \<in> set (counter_elements f). is_prime p"
proof -
  show "prod_list (counter_elements f) = n"
    using assms by (simp add: prod_list_counter_elements factorization_of_def)
  show "\<forall>p \<in> set (counter_elements f). is_prime p"
    using assms set_counter_elements[of f] by (fastforce simp: factorization_of_def)
qed


section \<open>The loop of \<^verbatim>\<open>cyclic_subgroup_from\<close>\<close>

lemma update_fresh: "k \<notin> fst ` set al \<Longrightarrow> AList.update k v al = al @ [(k, v)]"
  by (induction al) auto

lemma power_table_Suc:
  "power_table m x (Suc k) = power_table m x k @ [(int k, x ^ k mod m)]"
  by (simp add: power_table_def)

lemma fst_power_table: "fst ` set (power_table m x k) = int ` {0..<k}"
  by (auto simp: power_table_def image_iff)

lemma update_power_table:
  "AList.update (int k) (x ^ k mod m) (power_table m x k) = power_table m x (Suc k)"
proof -
  have "int k \<notin> fst ` set (power_table m x k)" by (auto simp: fst_power_table)
  then show ?thesis by (simp add: update_fresh power_table_Suc)
qed

lemma py_mod_nonzero: "b \<noteq> 0 \<Longrightarrow> py_mod a b = Inr (a mod b)"
  by (simp add: py_mod_def)

lemma mult_pair: "modulus s \<noteq> 0 \<Longrightarrow> mult s [a, b] = Inr (a * b mod modulus s)"
  by (simp add: mult_def py_mod_def mod_mult_left_eq)

lemma elem_eq: "modulus s \<noteq> 0 \<Longrightarrow> elem s x = Inr (x mod modulus s)"
  by (simp add: elem_def py_mod_def)

lemma power_of_eq:
  "2 \<le> modulus s \<Longrightarrow> 0 \<le> p \<Longrightarrow> power_of s x p = Inr (x ^ nat p mod modulus s)"
  by (simp add: power_of_def mod_power_nonneg)

lemma cyclic_subgroup_loop_returns:
  assumes m: "2 \<le> modulus s"
    and jk: "j \<le> k" and one: "x ^ k mod modulus s = 1"
    and least: "\<And>i. j \<le> i \<Longrightarrow> i < k \<Longrightarrow> x ^ i mod modulus s \<noteq> 1"
  shows "cyclic_subgroup_loop s x (power_table (modulus s) x j) (x ^ j mod modulus s) (int j) =
         Some (Inr (power_table (modulus s) x k, int k))"
  using jk least
proof (induction "k - j" arbitrary: j)
  case 0
  then have "j = k" by simp
  with one show ?case by (simp add: cyclic_subgroup_loop.simps)
next
  case (Suc d)
  then have lt: "j < k" by simp
  then have ne: "x ^ j mod modulus s \<noteq> 1" using Suc.prems(2)[of j] by simp
  have nxt: "mult s [x ^ j mod modulus s, x] = Inr (x ^ Suc j mod modulus s)"
    using m by (simp add: mult_pair mod_mult_left_eq) (simp add: mult.commute)
  have "cyclic_subgroup_loop s x (power_table (modulus s) x (Suc j))
          (x ^ Suc j mod modulus s) (int (Suc j)) =
        Some (Inr (power_table (modulus s) x k, int k))"
    using Suc.hyps(2) lt Suc.prems(2) by (intro Suc.hyps(1)) auto
  then show ?case
    using ne nxt
    by (subst cyclic_subgroup_loop.simps) (simp add: update_power_table add.commute)
qed

lemma cyclic_subgroup_loop_Some:
  assumes "cyclic_subgroup_loop s x sub cur pw = Some r" "2 \<le> modulus s"
  shows "\<exists>i. cur * x ^ i mod modulus s = 1"
proof -
  have "2 \<le> modulus s \<longrightarrow> (\<exists>i. cur * x ^ i mod modulus s = 1)"
  proof (rule cyclic_subgroup_loop.raw_induct[where
        P = "\<lambda>s x sub cur pw r. 2 \<le> modulus s \<longrightarrow> (\<exists>i. cur * x ^ i mod modulus s = 1)",
        OF _ assms(1)])
    fix f :: "ring \<Rightarrow> int \<Rightarrow> dict \<Rightarrow> int \<Rightarrow> int \<Rightarrow> (error + dict \<times> int) option"
      and s x sub cur pw r
    assume ih: "\<And>s x sub cur pw r. f s x sub cur pw = Some r \<Longrightarrow>
                  2 \<le> modulus s \<longrightarrow> (\<exists>i. cur * x ^ i mod modulus s = 1)"
      and eq: "(if cur \<noteq> 1
                then case mult s [cur, x] of Inl e \<Rightarrow> Some (Inl e)
                     | Inr next_elem \<Rightarrow> f s x (AList.update pw cur sub) next_elem (pw + 1)
                else Some (Inr (sub, pw))) = Some r"
    show "2 \<le> modulus s \<longrightarrow> (\<exists>i. cur * x ^ i mod modulus s = 1)"
    proof
      assume m: "2 \<le> modulus s"
      show "\<exists>i. cur * x ^ i mod modulus s = 1"
      proof (cases "cur = 1")
        case True
        with m show ?thesis by (intro exI[of _ 0]) simp
      next
        case False
        have nxt: "mult s [cur, x] = Inr (cur * x mod modulus s)" using m by (simp add: mult_pair)
        with False eq have "f s x (AList.update pw cur sub) (cur * x mod modulus s) (pw + 1) = Some r"
          by simp
        from ih[OF this] m obtain i where "(cur * x mod modulus s) * x ^ i mod modulus s = 1"
          by blast
        then have "cur * x ^ Suc i mod modulus s = 1"
          by (simp add: mod_mult_left_eq mult.assoc)
        then show ?thesis by blast
      qed
    qed
  qed
  with assms(2) show ?thesis by simp
qed


lemma cyclic_subgroup_from_unit:
  assumes m: "2 \<le> modulus s" and x: "0 \<le> x" "x < modulus s" and c: "coprime x (modulus s)"
  shows "cyclic_subgroup_from s x =
           Some (Inr (power_table (modulus s) x (ord_mod (modulus s) x)),
                 if map_of (orders s) x = None
                 then s\<lparr>orders := AList.update x (int (ord_mod (modulus s) x)) (orders s)\<rparr>
                 else s)"
proof -
  let ?m = "modulus s" and ?k = "ord_mod (modulus s) x"
  have k: "0 < ?k" "x ^ ?k mod ?m = 1" using ord_mod_props[OF m c] by simp_all
  have "cyclic_subgroup_loop s x (power_table ?m x 1) (x ^ 1 mod ?m) (int 1) =
        Some (Inr (power_table ?m x ?k, int ?k))"
  proof (rule cyclic_subgroup_loop_returns[OF m _ k(2)])
    show "1 \<le> ?k" using k(1) by simp
    fix i assume "1 \<le> i" "i < ?k"
    then show "x ^ i mod ?m \<noteq> 1" using ord_mod_least[of i ?m x] by simp
  qed
  moreover have "power_table ?m x 1 = [(0, 1)]" using m by (simp add: power_table_def)
  moreover have "x ^ 1 mod ?m = x" using x by simp
  ultimately have "cyclic_subgroup_loop s x [(0, 1)] x 1 =
        Some (Inr (power_table ?m x ?k, int ?k))" by simp
  then show ?thesis by (simp add: cyclic_subgroup_from_def)
qed

lemma cyclic_subgroup_from_Some_coprime:
  assumes "cyclic_subgroup_from s x = Some r" "2 \<le> modulus s"
  shows "coprime x (modulus s)"
proof -
  from assms(1) obtain r' where "cyclic_subgroup_loop s x [(0, 1)] x 1 = Some r'"
    by (auto simp: cyclic_subgroup_from_def split: option.splits)
  from cyclic_subgroup_loop_Some[OF this assms(2)] obtain i where
    "x * x ^ i mod modulus s = 1" by blast
  then have "x ^ Suc i mod modulus s = 1" by simp
  then show ?thesis by (rule pow_mod_one_coprime[rotated]) simp
qed

text \<open>
  With the modulus 1, which the constructor accepts although the ring is meant for moduli
  of at least 2, the only residue is 0, and the loop started from it never returns.
\<close>

lemma cyclic_subgroup_loop_modulus_one:
  assumes "cyclic_subgroup_loop s x sub cur pw = Some r" "modulus s = 1"
  shows "cur \<noteq> 0"
proof -
  have "modulus s = 1 \<longrightarrow> cur \<noteq> 0"
  proof (rule cyclic_subgroup_loop.raw_induct[where
        P = "\<lambda>s x sub cur pw r. modulus s = 1 \<longrightarrow> cur \<noteq> 0", OF _ assms(1)])
    fix f :: "ring \<Rightarrow> int \<Rightarrow> dict \<Rightarrow> int \<Rightarrow> int \<Rightarrow> (error + dict \<times> int) option"
      and s x sub cur pw r
    assume ih: "\<And>s x sub cur pw r. f s x sub cur pw = Some r \<Longrightarrow> modulus s = 1 \<longrightarrow> cur \<noteq> 0"
      and eq: "(if cur \<noteq> 1
                then case mult s [cur, x] of Inl e \<Rightarrow> Some (Inl e)
                     | Inr next_elem \<Rightarrow> f s x (AList.update pw cur sub) next_elem (pw + 1)
                else Some (Inr (sub, pw))) = Some r"
    show "modulus s = 1 \<longrightarrow> cur \<noteq> 0"
    proof (intro impI notI)
      assume m: "modulus s = 1" and z: "cur = 0"
      have "mult s [cur, x] = Inr 0" using m by (simp add: mult_pair)
      with z eq have "f s x (AList.update pw cur sub) 0 (pw + 1) = Some r" by simp
      from ih[OF this] m show False by simp
    qed
  qed
  with assms(2) show ?thesis by simp
qed

section \<open>The search loop of \<^verbatim>\<open>order_of\<close>\<close>

lemma is_prime_pos: "is_prime p \<Longrightarrow> 0 < p"
  by (simp add: is_prime_def)

lemma order_search_new_powers:
  assumes m: "2 \<le> modulus s"
    and inv: "search_inv (modulus s) x powers P"
    and p: "is_prime p"
  obtains np where
    "dict_comp (\<lambda>(e, x). map_of powers (p * e) = None)
       (\<lambda>(e, x). case power_of s x p of Inl err \<Rightarrow> Inl err | Inr v \<Rightarrow> Inr (p * e, v))
       powers [] = Inr np"
    "distinct (map fst np)"
    "dom (map_of np) = {d. 0 < d \<and> d dvd P * p \<and> \<not> d dvd P}"
    "\<And>k v. map_of np k = Some v \<Longrightarrow> v = x ^ nat k mod modulus s"
proof -
  let ?m = "modulus s"
  let ?keep = "\<lambda>(e::int, v::int). map_of powers (p * e) = None"
  let ?kv = "\<lambda>(e, x). case power_of s x p of Inl err \<Rightarrow> Inl err | Inr v \<Rightarrow> Inr (p * e, v)"
  let ?KV = "\<lambda>(e, v). (p * e, v ^ nat p mod ?m)"
  let ?items = "map ?KV (filter ?keep powers)"
  define np where "np = fold (\<lambda>(k, v). AList.update k v) ?items []"
  have p0: "0 < p" using p by (rule is_prime_pos)
  have dist: "distinct (map fst powers)"
    and dom: "dom (map_of powers) = {d. 0 < d \<and> d dvd P}"
    and val: "\<And>k v. map_of powers k = Some v \<Longrightarrow> v = x ^ nat k mod ?m"
    using inv by (auto simp: search_inv_def)
  have kv: "?kv i = Inr (?KV i)" if "i \<in> set powers" for i
    using m p0 by (cases i) (simp add: power_of_eq)
  have comp: "dict_comp ?keep ?kv powers [] = Inr np"
    unfolding np_def by (rule dict_comp_fold) (use kv in auto)
  have fst_items: "map fst ?items = map ((*) p) (map fst (filter ?keep powers))"
    by (simp add: comp_def case_prod_beta)
  have d1: "distinct (map fst (filter ?keep powers))"
    using dist by (rule distinct_map_filter)
  have inj: "inj_on ((*) p) A" for A :: "int set"
    using p0 by (auto simp: inj_on_def)
  have dist_items: "distinct (map fst ?items)"
    unfolding fst_items using d1 inj by (subst distinct_map) blast
  have map_np: "map_of np = map_of ?items"
    unfolding np_def by (simp add: map_of_fold_update[OF dist_items])
  have dist_np: "distinct (map fst np)"
    unfolding np_def by (rule distinct_fold_update) simp
  have entry: "map_of np k = Some v \<longleftrightarrow>
      (\<exists>e w. map_of powers e = Some w \<and> map_of powers (p * e) = None \<and>
             k = p * e \<and> v = w ^ nat p mod ?m)" for k v
  proof -
    have "map_of np k = Some v \<longleftrightarrow> (k, v) \<in> set ?items"
      unfolding map_np using dist_items by simp
    also have "\<dots> \<longleftrightarrow> (\<exists>e w. (e, w) \<in> set powers \<and> map_of powers (p * e) = None \<and>
             k = p * e \<and> v = w ^ nat p mod ?m)"
      by (auto simp: image_iff)
    also have "\<dots> \<longleftrightarrow> (\<exists>e w. map_of powers e = Some w \<and> map_of powers (p * e) = None \<and>
             k = p * e \<and> v = w ^ nat p mod ?m)"
      using dist by simp
    finally show ?thesis .
  qed
  have in_dom: "e \<in> dom (map_of powers) \<longleftrightarrow> 0 < e \<and> e dvd P" for e
    using dom by auto
  have dom_np: "dom (map_of np) = {d. 0 < d \<and> d dvd P * p \<and> \<not> d dvd P}"
  proof (intro set_eqI iffI)
    fix d assume "d \<in> dom (map_of np)"
    then obtain v where "map_of np d = Some v" by auto
    then obtain e w where e: "map_of powers e = Some w" "map_of powers (p * e) = None" "d = p * e"
      using entry by blast
    from e(1) have "0 < e" "e dvd P" using in_dom[of e] by auto
    moreover have "\<not> (0 < p * e \<and> p * e dvd P)" using e(2) in_dom[of "p * e"] by auto
    ultimately show "d \<in> {d. 0 < d \<and> d dvd P * p \<and> \<not> d dvd P}"
      using p0 e(3) by (auto simp: mult.commute)
  next
    fix d assume "d \<in> {d. 0 < d \<and> d dvd P * p \<and> \<not> d dvd P}"
    then have d: "0 < d" "d dvd P * p" "\<not> d dvd P" by auto
    from p d(2,1) obtain d' where d': "d = p * d'" "d' dvd P" "0 < d'"
      by (rule dvd_mult_prime_cases) (use d(3) in auto)
    then obtain w where w: "map_of powers d' = Some w" using in_dom[of d'] by auto
    have "map_of powers (p * d') = None" using d(3) d'(1) in_dom[of "p * d'"] by auto
    with w d'(1) have "map_of np d = Some (w ^ nat p mod ?m)" using entry by blast
    then show "d \<in> dom (map_of np)" by auto
  qed
  have val_np: "v = x ^ nat k mod ?m" if "map_of np k = Some v" for k v
  proof -
    from that obtain e w where e: "map_of powers e = Some w" "k = p * e" "v = w ^ nat p mod ?m"
      using entry by blast
    have e0: "0 < e" using e(1) in_dom[of e] by auto
    have "w = x ^ nat e mod ?m" using val[OF e(1)] .
    then have "v = x ^ (nat e * nat p) mod ?m" using e(3) by (simp add: power_mod power_mult)
    moreover have "nat e * nat p = nat k" using e(2) e0 p0 by (simp add: nat_mult_distrib mult.commute)
    ultimately show ?thesis by simp
  qed
  from comp dist_np dom_np val_np show thesis by (rule that)
qed


lemma search_inv_init:
  assumes "2 \<le> m" "x mod m \<noteq> 1"
  shows "search_inv m x [(1, x mod m)] 1"
  using assms by (auto simp: search_inv_def dom_def)

lemma order_search_finds_order:
  assumes m: "2 \<le> modulus s" and c: "coprime x (modulus s)"
    and ps: "\<forall>p \<in> set ps. is_prime p"
    and inv: "search_inv (modulus s) x powers P" and P: "0 < P"
    and one: "x ^ nat (P * prod_list ps) mod modulus s = 1"
  shows "order_search s powers ps = Inr (Some (int (ord_mod (modulus s) x)))"
  using ps inv P one
proof (induction ps arbitrary: powers P)
  case Nil
  let ?m = "modulus s"
  have "P \<in> dom (map_of powers)" using Nil.prems(2,3) by (simp add: search_inv_def)
  then obtain v where v: "map_of powers P = Some v" by auto
  with Nil.prems(2) have "v = x ^ nat P mod ?m" "v \<noteq> 1" by (auto simp: search_inv_def)
  with Nil.prems(4) show ?case by simp
next
  case (Cons p ps)
  let ?m = "modulus s" and ?n = "ord_mod (modulus s) x"
  have p: "is_prime p" using Cons.prems(1) by simp
  have p0: "0 < p" using p by (rule is_prime_pos)
  from order_search_new_powers[OF m Cons.prems(2) p] obtain np where
    comp: "dict_comp (\<lambda>(e, x). map_of powers (p * e) = None)
       (\<lambda>(e, x). case power_of s x p of Inl err \<Rightarrow> Inl err | Inr v \<Rightarrow> Inr (p * e, v))
       powers [] = Inr np"
    and dist_np: "distinct (map fst np)"
    and dom_np: "dom (map_of np) = {d. 0 < d \<and> d dvd P * p \<and> \<not> d dvd P}"
    and val_np: "\<And>k v. map_of np k = Some v \<Longrightarrow> v = x ^ nat k mod ?m"
    by blast
  have dist: "distinct (map fst powers)"
    and dom: "dom (map_of powers) = {d. 0 < d \<and> d dvd P}"
    and val: "\<And>k v. map_of powers k = Some v \<Longrightarrow> v = x ^ nat k mod ?m \<and> v \<noteq> 1"
    using Cons.prems(2) by (auto simp: search_inv_def)
  let ?hits = "map fst (filter (\<lambda>(e, x). x = 1) np)"
  have hits: "set ?hits = {k. map_of np k = Some 1}"
    using dist_np by (auto simp: image_iff)
  show ?case
  proof (cases ?hits)
    case Nil
    then have nohit: "map_of np k \<noteq> Some 1" for k using hits by auto
    let ?merged = "dict_merge powers np"
    have map_merged: "map_of ?merged = map_of powers ++ map_of np"
      unfolding dict_merge_def by (rule map_of_fold_update[OF dist_np])
    have "distinct (map fst ?merged)"
      unfolding dict_merge_def using dist by (rule distinct_fold_update)
    moreover have "dom (map_of ?merged) = {d. 0 < d \<and> d dvd P * p}"
      unfolding map_merged dom_map_add dom dom_np by auto
    moreover have "v = x ^ nat k mod ?m \<and> v \<noteq> 1" if "map_of ?merged k = Some v" for k v
    proof (cases "map_of np k")
      case None
      with that have "map_of powers k = Some v" by (simp add: map_merged map_add_def)
      then show ?thesis by (rule val)
    next
      case (Some w)
      with that have "w = v" by (simp add: map_merged map_add_def)
      with Some val_np[of k v] nohit[of k] show ?thesis by auto
    qed
    ultimately have inv': "search_inv ?m x ?merged (P * p)"
      unfolding search_inv_def by blast
    have "order_search s ?merged ps = Inr (Some (int ?n))"
    proof (rule Cons.IH[OF _ inv'])
      show "\<forall>p \<in> set ps. is_prime p" using Cons.prems(1) by simp
      show "0 < P * p" using Cons.prems(3) p0 by simp
      show "x ^ nat (P * p * prod_list ps) mod ?m = 1"
        using Cons.prems(4) by (simp add: mult.assoc)
    qed
    with comp Nil show ?thesis by simp
  next
    case (Cons h hs)
    have res: "order_search s powers (p # ps) = Inr (Some (min_list (h # hs)))"
      using comp Cons by simp
    have ne: "h # hs \<noteq> []" by simp
    have "set (h # hs) = {k. map_of np k = Some 1}" using hits Cons by simp
    then have H: "k \<in> set (h # hs) \<longleftrightarrow> map_of np k = Some 1" for k by blast
    have n0: "0 < ?n" and n1: "x ^ ?n mod ?m = 1" using ord_mod_props[OF m c] by simp_all
    have ge: "int ?n \<le> k \<and> int ?n dvd k" if "k \<in> set (h # hs)" for k
    proof -
      from that have k: "map_of np k = Some 1" by (simp only: H)
      then have "k \<in> dom (map_of np)" by auto
      then have k0: "0 < k" using dom_np by simp
      from val_np[OF k] have "x ^ nat k mod ?m = 1" by simp
      then have "?n dvd nat k" using pow_mod_one_iff_ord_dvd[OF m c] by simp
      then have "int ?n dvd k" using k0 by (metis int_dvd_int_iff int_nat_eq less_le)
      moreover from this have "int ?n \<le> k" using k0 by (rule zdvd_imp_le)
      ultimately show ?thesis by simp
    qed
    have mem: "int ?n \<in> set (h # hs)"
    proof -
      have "h \<in> set (h # hs)" by simp
      with ge have "int ?n dvd h" by blast
      moreover have "map_of np h = Some 1" using H[of h] by simp
      then have "h \<in> dom (map_of np)" by auto
      then have "h dvd P * p" using dom_np by simp
      ultimately have dv: "int ?n dvd P * p" by (rule dvd_trans)
      have "\<not> int ?n dvd P"
      proof
        assume "int ?n dvd P"
        then have "int ?n \<in> dom (map_of powers)" using n0 dom by simp
        then obtain v where v: "map_of powers (int ?n) = Some v" by auto
        from val[OF this] n1 show False by simp
      qed
      with dv n0 have "int ?n \<in> dom (map_of np)" using dom_np by simp
      then obtain v where v: "map_of np (int ?n) = Some v" by auto
      from val_np[OF this] n1 have "v = 1" by simp
      with v show ?thesis by (simp only: H)
    qed
    have "min_list (h # hs) = Min (set (h # hs))" using ne by (rule min_list_Min)
    also have "\<dots> = int ?n" using mem ge by (intro Min_eqI) auto
    finally show ?thesis using res by simp
  qed
qed


section \<open>The invariant of the ring\<close>

lemma same_core_refl: "same_core s s"
  by (simp add: same_core_def)

lemma same_core_trans: "same_core s s1 \<Longrightarrow> same_core s1 s2 \<Longrightarrow> same_core s s2"
  by (simp add: same_core_def)

lemma core_inv_same_core: "same_core s s' \<Longrightarrow> core_inv c m s' = core_inv c m s"
  by (simp add: same_core_def core_inv_def)

lemma factorization_step:
  assumes "caches_inv c m s"
  shows "fst (factorization c s) = factor c m"
    and "caches_inv c m (snd (factorization c s))"
    and "same_core s (snd (factorization c s))"
  using assms
  by (auto simp: factorization_def caches_inv_def same_core_def Let_def split: option.splits)

lemma euler_step:
  assumes "caches_inv c m s"
  shows "fst (euler c s) = Phi c m"
    and "caches_inv c m (snd (euler c s))"
    and "same_core s (snd (euler c s))"
  using assms
  by (auto simp: euler_def factorization_def caches_inv_def same_core_def Let_def Phi_def
      split: option.splits)

lemma carmichael_step:
  assumes "caches_inv c m s"
  shows "fst (carmichael c s) = Lam c m"
    and "caches_inv c m (snd (carmichael c s))"
    and "same_core s (snd (carmichael c s))"
  using assms
  by (auto simp: carmichael_def factorization_def caches_inv_def same_core_def Let_def Lam_def
      Phi_def split: option.splits)


lemma carmichael_factorization_step:
  assumes "caches_inv c m s"
  shows "fst (carmichael_factorization c s) = factor c (Lam c m)"
    and "caches_inv c m (snd (carmichael_factorization c s))"
    and "same_core s (snd (carmichael_factorization c s))"
proof -
  note l = carmichael_step[OF assms]
  show "fst (carmichael_factorization c s) = factor c (Lam c m)"
    using assms l(1)
    by (cases "c_carmichael_factorization s")
       (simp_all add: carmichael_factorization_def case_prod_beta caches_inv_def Let_def)
  show "caches_inv c m (snd (carmichael_factorization c s))"
    using assms l(1,2)
    by (cases "c_carmichael_factorization s")
       (simp_all add: carmichael_factorization_def case_prod_beta caches_inv_def Let_def)
  show "same_core s (snd (carmichael_factorization c s))"
    using l(3)
    by (cases "c_carmichael_factorization s")
       (simp_all add: carmichael_factorization_def case_prod_beta same_core_def Let_def)
qed

lemma carmichael_primes_step:
  assumes "caches_inv c m s"
  shows "fst (carmichael_primes c s) = counter_elements (factor c (Lam c m))"
    and "caches_inv c m (snd (carmichael_primes c s))"
    and "same_core s (snd (carmichael_primes c s))"
  using carmichael_factorization_step[OF assms]
  by (simp_all add: carmichael_primes_def case_prod_beta)

lemma is_cyclic_step:
  assumes "caches_inv c m s"
  shows "fst (is_cyclic c s) = (Phi c m = Lam c m)"
    and "caches_inv c m (snd (is_cyclic c s))"
    and "same_core s (snd (is_cyclic c s))"
proof -
  note e = euler_step[OF assms]
  note l = carmichael_step[OF e(2)]
  show "fst (is_cyclic c s) = (Phi c m = Lam c m)"
    and "caches_inv c m (snd (is_cyclic c s))"
    and "same_core s (snd (is_cyclic c s))"
    using e l same_core_trans[OF e(3) l(3)]
    by (simp_all add: is_cyclic_def case_prod_beta)
qed

lemma multiplicative_group_step:
  assumes "caches_inv c m s" "prime_to c (factor c m) = units m"
  shows "fst (multiplicative_group c s) = units m"
    and "caches_inv c m (snd (multiplicative_group c s))"
    and "same_core s (snd (multiplicative_group c s))"
proof -
  note f = factorization_step[OF assms(1)]
  show "fst (multiplicative_group c s) = units m"
    using assms f(1)
    by (cases "c_multiplicative_group s")
       (simp_all add: multiplicative_group_def case_prod_beta caches_inv_def Let_def)
  show "caches_inv c m (snd (multiplicative_group c s))"
    using assms f(1,2)
    by (cases "c_multiplicative_group s")
       (simp_all add: multiplicative_group_def case_prod_beta caches_inv_def Let_def)
  show "same_core s (snd (multiplicative_group c s))"
    using f(3)
    by (cases "c_multiplicative_group s")
       (simp_all add: multiplicative_group_def case_prod_beta same_core_def Let_def)
qed

lemma ring_inv_same_core:
  "ring_inv c m s \<Longrightarrow> caches_inv c m s' \<Longrightarrow> same_core s s' \<Longrightarrow> ring_inv c m s'"
  by (simp add: ring_inv_def core_inv_same_core)

lemma ord_mod_one: "2 \<le> m \<Longrightarrow> ord_mod m 1 = 1"
  by (rule ord_mod_eqI) simp_all

lemma ord_mod_minus_one:
  assumes "3 \<le> m"
  shows "ord_mod m (m - 1) = 2"
proof (rule ord_mod_eqI)
  show "0 < (2::nat)" by simp
  have "(m - 1) ^ 2 = m * (m - 2) + 1" by (simp add: power2_eq_square algebra_simps)
  then have "(m - 1) ^ 2 mod m = 1 mod m" by (simp only: mod_mult_self4)
  then show "(m - 1) ^ 2 mod m = 1" using assms by simp
  fix j :: nat assume "0 < j" "j < 2"
  then have j: "j = 1" by simp
  have "(m - 1) mod m = m - 1" using assms by (intro mod_pos_pos_trivial) auto
  then have "(m - 1) mod m \<noteq> 1" using assms by linarith
  then show "(m - 1) ^ j mod m \<noteq> 1" unfolding j power_one_right .
qed

lemma ring_inv_init:
  assumes "2 \<le> m"
  shows "ring_inv c m (ModularRing m)"
proof -
  have "caches_inv c m (ModularRing m)" by (simp add: caches_inv_def ModularRing_def)
  moreover have "core_inv c m (ModularRing m)"
  proof (cases "m = 2")
    case True
    then show ?thesis using assms by (simp add: core_inv_def ModularRing_def ord_mod_one)
  next
    case False
    with assms have "3 \<le> m" by simp
    then show ?thesis
      using False assms by (auto simp: core_inv_def ModularRing_def ord_mod_one ord_mod_minus_one)
  qed
  ultimately show ?thesis using assms by (simp add: ring_inv_def)
qed


section \<open>The methods keep the invariant\<close>

lemma bind_m_Inr: "x = Some (Inr v, s1) \<Longrightarrow> bind_m x f = f v s1"
  by (simp add: bind_m_def)

lemma bind_m_Inl: "x = Some (Inl e, s1) \<Longrightarrow> bind_m x f = Some (Inl e, s1)"
  by (simp add: bind_m_def)

lemma ring_inv_modulus: "ring_inv c m s \<Longrightarrow> modulus s = m"
  by (simp add: ring_inv_def caches_inv_def)

lemma ring_inv_caches: "ring_inv c m s \<Longrightarrow> caches_inv c m s"
  by (simp add: ring_inv_def)

lemma ring_inv_ge2: "ring_inv c m s \<Longrightarrow> 2 \<le> m"
  by (simp add: ring_inv_def)

lemma ring_inv_update_orders:
  assumes "ring_inv c m s"
    and "x \<in> set (units m) \<Longrightarrow> v = int (ord_mod m x)"
  shows "ring_inv c m (s\<lparr>orders := AList.update x v (orders s)\<rparr>)"
proof -
  have m: "2 \<le> m" using assms(1) by (rule ring_inv_ge2)
  have x1: "v = 1" if "x = 1"
    using that assms(2) m by (simp add: one_in_units ord_mod_one)
  have "caches_inv c m (s\<lparr>orders := AList.update x v (orders s)\<rparr>)"
    using assms(1) by (simp add: ring_inv_def caches_inv_def)
  moreover have "core_inv c m (s\<lparr>orders := AList.update x v (orders s)\<rparr>)"
    using assms x1 by (auto simp: ring_inv_def core_inv_def update_conv')
  ultimately show ?thesis using assms(1) by (simp add: ring_inv_def)
qed

lemma cyclic_subgroup_from_cases:
  assumes "cyclic_subgroup_from s x = Some (r, s')"
  shows "s' = s \<or> (\<exists>v. map_of (orders s) x = None \<and> s' = s\<lparr>orders := AList.update x v (orders s)\<rparr>)"
  using assms
  by (auto simp: cyclic_subgroup_from_def split: option.splits sum.splits if_splits)

lemma cyclic_subgroup_from_inv:
  assumes "ring_inv c m s" "cyclic_subgroup_from s x = Some (r, s')"
  shows "ring_inv c m s'"
proof (cases "x \<in> set (units m)")
  case True
  have m: "modulus s = m" "2 \<le> modulus s"
    using assms(1) by (simp_all add: ring_inv_modulus ring_inv_ge2)
  from True have x: "0 \<le> x" "x < modulus s" "coprime x (modulus s)"
    using m by (auto simp: in_units_iff)
  from cyclic_subgroup_from_unit[OF m(2) x] assms(2)
  have s': "s' = (if map_of (orders s) x = None
                 then s\<lparr>orders := AList.update x (int (ord_mod m x)) (orders s)\<rparr> else s)"
    using m(1) by simp
  show ?thesis
  proof (cases "map_of (orders s) x = None")
    case True
    then show ?thesis using s' ring_inv_update_orders[OF assms(1)] by simp
  next
    case False
    then have "s' = s" using s' by auto
    then show ?thesis using assms(1) by simp
  qed
next
  case False
  from cyclic_subgroup_from_cases[OF assms(2)] show ?thesis
  proof
    assume "s' = s"
    then show ?thesis using assms(1) by simp
  next
    assume "\<exists>v. map_of (orders s) x = None \<and> s' = s\<lparr>orders := AList.update x v (orders s)\<rparr>"
    then obtain v where "s' = s\<lparr>orders := AList.update x v (orders s)\<rparr>"
      by blast
    then show ?thesis using ring_inv_update_orders[OF assms(1), of x v] False by simp
  qed
qed

lemma cyclic_subgroup_from_generator:
  assumes "cyclic_subgroup_from s x = Some (r, s')"
  shows "c_generator s' = c_generator s" "c_as_cyclic_group s' = c_as_cyclic_group s"
    "c_discrete_log s' = c_discrete_log s" "c_multiplicative_group s' = c_multiplicative_group s"
  using cyclic_subgroup_from_cases[OF assms] by auto

lemma Phi_contract: "contracts c m \<Longrightarrow> Phi c m = int (length (units m))"
  by (simp add: contracts_def Phi_def)

lemma prime_to_contract: "contracts c m \<Longrightarrow> prime_to c (factor c m) = units m"
  by (simp add: contracts_def)

lemma factor_Lam_contract:
  "contracts c m \<Longrightarrow> factorization_of (factor c (Lam c m)) (Lam c m)"
  by (simp add: contracts_def Lam_def)

lemma ord_le_Lam:
  assumes "contracts c m" "x \<in> set (units m)"
  shows "0 < nat (Lam c m)" "ord_mod m x \<le> nat (Lam c m)"
proof -
  from assms obtain k where k: "1 \<le> k" "k \<le> nat (Lam c m)" "x ^ k mod m = 1"
    unfolding contracts_def Lam_def by (metis atLeastAtMost_iff)
  then show "0 < nat (Lam c m)" by simp
  have "ord_mod m x \<le> k" using k(1,3) by (intro ord_mod_le) simp_all
  with k(2) show "ord_mod m x \<le> nat (Lam c m)" by simp
qed

lemma Lam_pos: "contracts c m \<Longrightarrow> 2 \<le> m \<Longrightarrow> 0 < Lam c m"
  using ord_le_Lam(1)[of c m 1] by (simp add: one_in_units)

lemma exists_generator:
  assumes "contracts c m" "2 \<le> m"
  shows "\<exists>x \<in> set (units m). int (ord_mod m x) = Lam c m"
proof -
  from assms(1) obtain x where x: "x \<in> set (units m)" "x ^ nat (Lam c m) mod m = 1"
    "\<forall>k \<in> {1..<nat (Lam c m)}. x ^ k mod m \<noteq> 1"
    unfolding contracts_def Lam_def by blast
  have "ord_mod m x = nat (Lam c m)"
  proof (rule ord_mod_eqI)
    show "0 < nat (Lam c m)" using Lam_pos[OF assms] by simp
    show "x ^ nat (Lam c m) mod m = 1" using x(2) .
    fix j assume "0 < j" "j < nat (Lam c m)"
    then show "x ^ j mod m \<noteq> 1" using x(3) by simp
  qed
  then have "int (ord_mod m x) = Lam c m" using Lam_pos[OF assms] by simp
  with x(1) show ?thesis by blast
qed

lemma ord_dvd_Lam:
  assumes "contracts c m" "2 \<le> m" "x \<in> set (units m)"
  shows "int (ord_mod m x) dvd Lam c m"
proof -
  from exists_generator[OF assms(1,2)] obtain g where
    g: "g \<in> set (units m)" "int (ord_mod m g) = Lam c m" by blast
  then have og: "ord_mod m g = nat (Lam c m)" by simp
  have "ord_mod m x dvd ord_mod m g"
    using assms(2) g(1) assms(3)
  proof (rule ord_dvd_max_ord)
    fix y assume "y \<in> set (units m)"
    then show "ord_mod m y \<le> ord_mod m g" using ord_le_Lam(2)[OF assms(1)] og by simp
  qed
  then have "int (ord_mod m x) dvd int (ord_mod m g)" by simp
  with g(2) show ?thesis by simp
qed

lemma unit_pow_Lam:
  assumes "contracts c m" "2 \<le> m" "x \<in> set (units m)"
  shows "x ^ nat (Lam c m) mod m = 1"
proof -
  have c: "coprime x m" using assms(3) by (simp add: in_units_iff)
  have "ord_mod m x dvd nat (Lam c m)"
    using ord_dvd_Lam[OF assms] Lam_pos[OF assms(1,2)]
    by (metis int_dvd_int_iff int_nat_eq less_le)
  then show ?thesis using pow_mod_one_iff_ord_dvd[OF assms(2) c] by simp
qed

lemma map_snd_power_table: "map snd (power_table m g n) = map (\<lambda>i. g ^ i mod m) [0..<n]"
  by (simp add: power_table_def comp_def)

lemma distinct_values_power_table:
  assumes "2 \<le> m" "coprime g m"
  shows "distinct (map snd (power_table m g (ord_mod m g)))"
  unfolding map_snd_power_table
  using pow_mod_inj_on[OF assms] by (simp add: distinct_map)

lemma sort_values_power_table:
  assumes "2 \<le> m" "g \<in> set (units m)" "ord_mod m g = length (units m)"
  shows "sort (map snd (power_table m g (ord_mod m g))) = units m"
proof -
  have c: "coprime g m" using assms(2) by (simp add: in_units_iff)
  let ?vs = "map snd (power_table m g (ord_mod m g))"
  have "set ?vs = set (units m)"
    unfolding map_snd_power_table using generator_covers_units[OF assms(1) c assms(3)] by simp
  moreover have "distinct ?vs" using distinct_values_power_table[OF assms(1) c] .
  ultimately show ?thesis
    by (intro sorted_distinct_set_unique) (simp_all add: sorted_units distinct_units)
qed

lemma core_inv_set_as_cyclic_group:
  assumes "core_inv c m s" "c_generator s = Some g"
  shows "core_inv c m (s\<lparr>c_as_cyclic_group := Some (power_table m g (ord_mod m g))\<rparr>)"
  using assms by (auto simp: core_inv_def)

lemma core_inv_set_discrete_log:
  assumes "core_inv c m s" "c_as_cyclic_group s = Some d"
  shows "core_inv c m (s\<lparr>c_discrete_log := Some (invert_dict d)\<rparr>)"
  using assms by (auto simp: core_inv_def)

lemma ring_inv_generator:
  assumes "ring_inv c m s" "c_generator s = Some g"
  shows "g \<in> set (units m)" "int (ord_mod m g) = Phi c m" "Phi c m = Lam c m"
  using assms by (auto simp: ring_inv_def core_inv_def)



lemma as_cyclic_group_via_inv:
  assumes ct: "contracts c m" and inv: "ring_inv c m s"
    and gen: "\<And>s1. ring_inv c m s1 \<Longrightarrow> same_core s s1 \<Longrightarrow> Phi c m = Lam c m \<Longrightarrow>
                \<exists>g s2. gen s1 = Some (Inr (Some g), s2) \<and> ring_inv c m s2 \<and> c_generator s2 = Some g"
  shows "\<exists>r s'. as_cyclic_group_via gen c s = Some (Inr r, s') \<and> ring_inv c m s' \<and>
           r = c_as_cyclic_group s' \<and> (Phi c m = Lam c m \<longrightarrow> r \<noteq> None)"
proof (cases "c_as_cyclic_group s")
  case (Some cg)
  then show ?thesis using inv by (simp add: as_cyclic_group_via_def)
next
  case None
  let ?s1 = "snd (is_cyclic c s)"
  note ic = is_cyclic_step[OF ring_inv_caches[OF inv]]
  have inv1: "ring_inv c m ?s1" using inv ic(2,3) by (rule ring_inv_same_core)
  show ?thesis
  proof (cases "Phi c m = Lam c m")
    case False
    then have "as_cyclic_group_via gen c s = Some (Inr (c_as_cyclic_group ?s1), ?s1)"
      using None ic(1) by (simp add: as_cyclic_group_via_def case_prod_beta)
    with inv1 False show ?thesis by simp
  next
    case True
    from gen[OF inv1 ic(3) True] obtain g s2 where
      g: "gen ?s1 = Some (Inr (Some g), s2)" "ring_inv c m s2" "c_generator s2 = Some g"
      by blast
    have m2: "2 \<le> m" "modulus s2 = m"
      using g(2) by (simp_all add: ring_inv_ge2 ring_inv_modulus)
    note gu = ring_inv_generator[OF g(2,3)]
    have gx: "0 \<le> g" "g < modulus s2" "coprime g (modulus s2)"
      using gu(1) m2 by (auto simp: in_units_iff)
    let ?tbl = "power_table m g (ord_mod m g)"
    obtain s3 where s3: "cyclic_subgroup_from s2 g = Some (Inr ?tbl, s3)"
      using cyclic_subgroup_from_unit[of s2 g] m2 gx by simp
    have inv3: "ring_inv c m s3" using g(2) s3 by (rule cyclic_subgroup_from_inv)
    have g3: "c_generator s3 = Some g" using cyclic_subgroup_from_generator(1)[OF s3] g(3) by simp
    let ?s4 = "s3\<lparr>c_as_cyclic_group := Some ?tbl\<rparr>"
    let ?s5 = "case c_multiplicative_group ?s4 of
                 None \<Rightarrow> ?s4\<lparr>c_multiplicative_group := Some (sort (map snd ?tbl))\<rparr>
               | Some g \<Rightarrow> ?s4"
    have inv4: "ring_inv c m ?s4"
      using inv3 core_inv_set_as_cyclic_group[OF _ g3, of c m]
      by (simp add: ring_inv_def caches_inv_def)
    have ordlen: "ord_mod m g = length (units m)"
      using gu(2) Phi_contract[OF ct] by simp
    have srt: "sort (map snd ?tbl) = units m"
      using m2(1) gu(1) ordlen by (rule sort_values_power_table)
    have inv5: "ring_inv c m ?s5"
    proof (cases "c_multiplicative_group ?s4")
      case None
      have "core_inv c m (?s4\<lparr>c_multiplicative_group := Some (sort (map snd ?tbl))\<rparr>) =
            core_inv c m ?s4"
        by (rule core_inv_same_core) (simp add: same_core_def)
      then show ?thesis using None inv4 srt by (simp add: ring_inv_def caches_inv_def)
    next
      case (Some a)
      then show ?thesis using inv4 by simp
    qed
    have cg5: "c_as_cyclic_group ?s5 = Some ?tbl"
      by (cases "c_multiplicative_group ?s4") simp_all
    have "as_cyclic_group_via gen c s = Some (Inr (c_as_cyclic_group ?s5), ?s5)"
      using None ic(1) True
      by (simp add: as_cyclic_group_via_def case_prod_beta bind_m_Inr[OF g(1)] bind_m_Inr[OF s3]
          Let_def)
    with inv5 cg5 show ?thesis by simp
  qed
qed



lemma discrete_log_via_inv:
  assumes ct: "contracts c m" and inv: "ring_inv c m s"
    and gen: "\<And>s1. ring_inv c m s1 \<Longrightarrow> same_core s s1 \<Longrightarrow> Phi c m = Lam c m \<Longrightarrow>
                \<exists>g s2. gen s1 = Some (Inr (Some g), s2) \<and> ring_inv c m s2 \<and> c_generator s2 = Some g"
  shows "\<exists>r s'. discrete_log_via gen c s = Some (Inr r, s') \<and> ring_inv c m s' \<and>
           r = c_discrete_log s' \<and> (Phi c m = Lam c m \<longrightarrow> r \<noteq> None)"
proof (cases "c_discrete_log s")
  case (Some dl)
  then show ?thesis using inv by (simp add: discrete_log_via_def)
next
  case None
  let ?s1 = "snd (is_cyclic c s)"
  note ic = is_cyclic_step[OF ring_inv_caches[OF inv]]
  have inv1: "ring_inv c m ?s1" using inv ic(2,3) by (rule ring_inv_same_core)
  show ?thesis
  proof (cases "Phi c m = Lam c m")
    case False
    then have "discrete_log_via gen c s = Some (Inr (c_discrete_log ?s1), ?s1)"
      using None ic(1) by (simp add: discrete_log_via_def case_prod_beta)
    with inv1 False show ?thesis by simp
  next
    case True
    have "\<exists>r s'. as_cyclic_group_via gen c ?s1 = Some (Inr r, s') \<and> ring_inv c m s' \<and>
           r = c_as_cyclic_group s' \<and> (Phi c m = Lam c m \<longrightarrow> r \<noteq> None)"
    proof (rule as_cyclic_group_via_inv[OF ct inv1])
      fix s1' assume "ring_inv c m s1'" "same_core ?s1 s1'" "Phi c m = Lam c m"
      then show "\<exists>g s2. gen s1' = Some (Inr (Some g), s2) \<and> ring_inv c m s2 \<and>
                   c_generator s2 = Some g"
        using gen[of s1'] same_core_trans[OF ic(3)] by blast
    qed
    then obtain r s2 where
      r: "as_cyclic_group_via gen c ?s1 = Some (Inr r, s2)" "ring_inv c m s2"
         "r = c_as_cyclic_group s2" "Phi c m = Lam c m \<longrightarrow> r \<noteq> None"
      by blast
    from r(4) True obtain d where d: "r = Some d" by auto
    have a: "as_cyclic_group_via gen c ?s1 = Some (Inr (Some d), s2)" "ring_inv c m s2"
         "c_as_cyclic_group s2 = Some d"
      using r d by simp_all
    let ?s3 = "s2\<lparr>c_discrete_log := Some (invert_dict d)\<rparr>"
    have inv3: "ring_inv c m ?s3"
      using a(2) core_inv_set_discrete_log[OF _ a(3), of c m]
      by (simp add: ring_inv_def caches_inv_def)
    have "discrete_log_via gen c s = Some (Inr (c_discrete_log ?s3), ?s3)"
      using None ic(1) True
      by (simp add: discrete_log_via_def case_prod_beta bind_m_Inr[OF a(1)] Let_def)
    with inv3 show ?thesis by simp
  qed
qed


section \<open>What the methods leave untouched\<close>

lemma factorization_frame:
  "modulus (snd (factorization c s)) = modulus s"
  "orders (snd (factorization c s)) = orders s"
  "c_generator (snd (factorization c s)) = c_generator s"
  "c_as_cyclic_group (snd (factorization c s)) = c_as_cyclic_group s"
  "c_discrete_log (snd (factorization c s)) = c_discrete_log s"
  by (simp_all add: factorization_def Let_def split: option.splits)

lemma euler_frame:
  "modulus (snd (euler c s)) = modulus s"
  "orders (snd (euler c s)) = orders s"
  "c_generator (snd (euler c s)) = c_generator s"
  "c_as_cyclic_group (snd (euler c s)) = c_as_cyclic_group s"
  "c_discrete_log (snd (euler c s)) = c_discrete_log s"
  by (simp_all add: euler_def Let_def case_prod_beta factorization_frame split: option.splits)

lemma carmichael_frame:
  "modulus (snd (carmichael c s)) = modulus s"
  "orders (snd (carmichael c s)) = orders s"
  "c_generator (snd (carmichael c s)) = c_generator s"
  "c_as_cyclic_group (snd (carmichael c s)) = c_as_cyclic_group s"
  "c_discrete_log (snd (carmichael c s)) = c_discrete_log s"
  by (simp_all add: carmichael_def Let_def case_prod_beta factorization_frame split: option.splits)

lemma is_cyclic_frame:
  "modulus (snd (is_cyclic c s)) = modulus s"
  "orders (snd (is_cyclic c s)) = orders s"
  "c_generator (snd (is_cyclic c s)) = c_generator s"
  "c_as_cyclic_group (snd (is_cyclic c s)) = c_as_cyclic_group s"
  "c_discrete_log (snd (is_cyclic c s)) = c_discrete_log s"
  by (simp_all add: is_cyclic_def case_prod_beta euler_frame carmichael_frame)

lemma as_cyclic_group_via_cached_frame:
  assumes "as_cyclic_group_via generator_cached c s = Some (r, s')"
  shows "c_generator s' = c_generator s"
proof (cases "c_as_cyclic_group s")
  case (Some cg)
  then show ?thesis using assms by (simp add: as_cyclic_group_via_def)
next
  case None
  let ?s1 = "snd (is_cyclic c s)"
  have g1: "c_generator ?s1 = c_generator s" by (rule is_cyclic_frame)
  show ?thesis
  proof (cases "fst (is_cyclic c s)")
    case False
    then show ?thesis using assms None g1 by (simp add: as_cyclic_group_via_def case_prod_beta)
  next
    case True
    show ?thesis
    proof (cases "c_generator ?s1")
      case None
      then show ?thesis using assms \<open>c_as_cyclic_group s = None\<close> True g1
        by (simp add: as_cyclic_group_via_def case_prod_beta generator_cached_def bind_m_def)
    next
      case (Some g)
      show ?thesis
      proof (cases "cyclic_subgroup_from ?s1 g")
        case None
        then show ?thesis using assms \<open>c_as_cyclic_group s = None\<close> True Some
          by (simp add: as_cyclic_group_via_def case_prod_beta generator_cached_def bind_m_def)
      next
        case (Some a)
        obtain r3 s3 where a: "a = (r3, s3)" by (cases a)
        have g3: "c_generator s3 = c_generator ?s1"
          using cyclic_subgroup_from_generator(1)[of ?s1 g r3 s3] Some a by simp
        show ?thesis
          using assms \<open>c_as_cyclic_group s = None\<close> True \<open>c_generator ?s1 = Some g\<close> Some a g3 g1
          by (cases r3; cases "c_multiplicative_group s3")
             (auto simp: as_cyclic_group_via_def case_prod_beta generator_cached_def bind_m_def Let_def)
      qed
    qed
  qed
qed

lemma discrete_log_via_cached_frame:
  assumes "discrete_log_via generator_cached c s = Some (r, s')"
  shows "c_generator s' = c_generator s"
proof (cases "c_discrete_log s")
  case (Some dl)
  then show ?thesis using assms by (simp add: discrete_log_via_def)
next
  case None
  let ?s1 = "snd (is_cyclic c s)"
  have g1: "c_generator ?s1 = c_generator s" by (rule is_cyclic_frame)
  show ?thesis
  proof (cases "fst (is_cyclic c s)")
    case False
    then show ?thesis using assms None g1 by (simp add: discrete_log_via_def case_prod_beta)
  next
    case True
    show ?thesis
    proof (cases "as_cyclic_group_via generator_cached c ?s1")
      case None
      then show ?thesis using assms \<open>c_discrete_log s = None\<close> True
        by (simp add: discrete_log_via_def case_prod_beta bind_m_def)
    next
      case (Some a)
      obtain r2 s2 where a: "a = (r2, s2)" by (cases a)
      have g2: "c_generator s2 = c_generator ?s1"
        using as_cyclic_group_via_cached_frame[of c ?s1 r2 s2] Some a by simp
      show ?thesis
        using assms \<open>c_discrete_log s = None\<close> True Some a g2 g1
        by (auto simp: discrete_log_via_def case_prod_beta bind_m_def Let_def
            split: sum.splits option.splits)
    qed
  qed
qed


section \<open>\<^verbatim>\<open>order_of\<close> returns the order\<close>

lemma Phi_pos: "contracts c m \<Longrightarrow> 2 \<le> m \<Longrightarrow> 0 < Phi c m"
  using one_in_units[of m] by (cases "units m") (auto simp: Phi_contract)

lemma discrete_log_lookup:
  assumes m: "2 \<le> m" and g: "g \<in> set (units m)" "ord_mod m g = length (units m)"
    and x: "x \<in> set (units m)"
  shows "\<exists>k < ord_mod m g. x = g ^ k mod m \<and>
           map_of (invert_dict (power_table m g (ord_mod m g))) x = Some (int k)"
proof -
  have c: "coprime g m" using g(1) by (simp add: in_units_iff)
  have "x \<in> (\<lambda>i. g ^ i mod m) ` {0..<ord_mod m g}"
    using x generator_covers_units[OF m c g(2)] by simp
  then obtain k where k: "k < ord_mod m g" "x = g ^ k mod m" by auto
  have "(int k, x) \<in> set (power_table m g (ord_mod m g))"
    using k by (auto simp: power_table_def)
  with distinct_values_power_table[OF m c]
  have "map_of (invert_dict (power_table m g (ord_mod m g))) x = Some (int k)"
    by (rule map_of_invert_dict)
  with k show ?thesis by blast
qed

lemma order_of_cached:
  "map_of (orders s) x = Some v \<Longrightarrow> order_of c s x = Some (Inr (Some v), s)"
  by (simp add: order_of_def order_of_body_def)

lemma order_of_search_path:
  assumes "map_of (orders s) x = None" "c_generator s = None" "modulus s \<noteq> 0"
  shows "order_of c s x =
     (let s1 = snd (carmichael_primes c s) in
      case order_search s1 [(1, x mod modulus s)] (fst (carmichael_primes c s)) of
        Inl e \<Rightarrow> Some (Inl e, s1)
      | Inr None \<Rightarrow> Some (Inr None, s1)
      | Inr (Some order) \<Rightarrow>
          Some (Inr (Some order), s1\<lparr>orders := AList.update x order (orders s1)\<rparr>))"
  using assms by (simp add: order_of_def order_of_body_def elem_eq case_prod_beta Let_def)

lemma order_of_search_inv:
  assumes ct: "contracts c m" and inv: "ring_inv c m s"
    and none: "map_of (orders s) x = None" "c_generator s = None"
  shows "\<exists>r s'. order_of c s x = Some (r, s') \<and> ring_inv c m s' \<and>
           c_generator s' = c_generator s \<and>
           (x \<in> set (units m) \<longrightarrow> r = Inr (Some (int (ord_mod m x))))"
proof -
  have m: "2 \<le> m" "modulus s = m" using inv by (simp_all add: ring_inv_ge2 ring_inv_modulus)
  let ?s1 = "snd (carmichael_primes c s)" and ?ps = "fst (carmichael_primes c s)"
  note cp = carmichael_primes_step[OF ring_inv_caches[OF inv]]
  have inv1: "ring_inv c m ?s1" using inv cp(2,3) by (rule ring_inv_same_core)
  have g1: "c_generator ?s1 = c_generator s" using cp(3) by (simp add: same_core_def)
  have m1: "modulus ?s1 = m" using inv1 by (rule ring_inv_modulus)
  have path: "order_of c s x =
     (case order_search ?s1 [(1, x mod m)] ?ps of
        Inl e \<Rightarrow> Some (Inl e, ?s1)
      | Inr None \<Rightarrow> Some (Inr None, ?s1)
      | Inr (Some order) \<Rightarrow>
          Some (Inr (Some order), ?s1\<lparr>orders := AList.update x order (orders ?s1)\<rparr>))"
    using order_of_search_path[OF none, of c] m by (simp add: Let_def)
  show ?thesis
  proof (cases "x \<in> set (units m)")
    case True
    then have x: "1 \<le> x" "x < m" "coprime x m" by (simp_all add: in_units_iff)
    have "x \<noteq> 1" using inv none(1) by (auto simp: ring_inv_def core_inv_def)
    then have xm: "x mod m = x" "x mod m \<noteq> 1" using x by simp_all
    have si: "search_inv (modulus ?s1) x [(1, x mod m)] 1"
      unfolding m1 using m(1) xm(2) by (rule search_inv_init)
    note ce = counter_elements_factorization[OF factor_Lam_contract[OF ct]]
    have "order_search ?s1 [(1, x mod m)] ?ps = Inr (Some (int (ord_mod (modulus ?s1) x)))"
    proof (rule order_search_finds_order[OF _ _ _ si])
      show "2 \<le> modulus ?s1" using m(1) m1 by simp
      show "coprime x (modulus ?s1)" using x(3) m1 by simp
      show "\<forall>p \<in> set ?ps. is_prime p" using ce(2) cp(1) by simp
      show "(0::int) < 1" by simp
      show "x ^ nat (1 * prod_list ?ps) mod modulus ?s1 = 1"
        using unit_pow_Lam[OF ct m(1) True] ce(1) cp(1) m1 by simp
    qed
    then have "order_of c s x = Some (Inr (Some (int (ord_mod m x))),
                 ?s1\<lparr>orders := AList.update x (int (ord_mod m x)) (orders ?s1)\<rparr>)"
      using path m1 by simp
    moreover have "ring_inv c m (?s1\<lparr>orders := AList.update x (int (ord_mod m x)) (orders ?s1)\<rparr>)"
      using inv1 by (rule ring_inv_update_orders) simp
    ultimately show ?thesis using g1 by simp
  next
    case False
    show ?thesis
    proof (cases "order_search ?s1 [(1, x mod m)] ?ps")
      case (Inl e)
      then show ?thesis using path inv1 g1 False by simp
    next
      case (Inr res)
      show ?thesis
      proof (cases res)
        case None
        then show ?thesis using path Inr inv1 g1 False by simp
      next
        case (Some order)
        have "ring_inv c m (?s1\<lparr>orders := AList.update x order (orders ?s1)\<rparr>)"
          using inv1 by (rule ring_inv_update_orders) (use False in simp)
        then show ?thesis using path Inr Some g1 False by simp
      qed
    qed
  qed
qed


lemma order_of_log_path:
  assumes "map_of (orders s) x = None" "c_generator s = Some g"
    and "discrete_log_via generator_cached c (snd (euler c s)) = Some (Inr (Some d), s2)"
  shows "order_of c s x =
     (case map_of d x of
        None \<Rightarrow> Some (Inl (KeyError x), s2)
      | Some k \<Rightarrow>
          (let s3 = snd (euler c s2) in
           case gcd_numth k (fst (euler c s2)) of
             Inl e \<Rightarrow> Some (Inl e, s3)
           | Inr d' \<Rightarrow>
               (case py_floordiv (fst (euler c s)) d' of
                  Inl e \<Rightarrow> Some (Inl e, s3)
                | Inr order \<Rightarrow>
                    Some (Inr (Some order),
                      s3\<lparr>orders := AList.update x order (orders s3)\<rparr>))))"
  using assms(1,2)
  by (simp add: order_of_def order_of_body_def case_prod_beta bind_m_Inr[OF assms(3)] Let_def
      split: option.splits)

lemma ring_inv_discrete_log:
  assumes "ring_inv c m s" "c_discrete_log s = Some dl" "c_generator s = Some g"
  shows "dl = invert_dict (power_table m g (ord_mod m g))"
    and "c_as_cyclic_group s = Some (power_table m g (ord_mod m g))"
proof -
  from assms(1,2) obtain cg where cg: "c_as_cyclic_group s = Some cg" "dl = invert_dict cg"
    by (auto simp: ring_inv_def core_inv_def)
  from assms(1) cg(1) obtain g' where "c_generator s = Some g'" "cg = power_table m g' (ord_mod m g')"
    by (auto simp: ring_inv_def core_inv_def)
  with assms(3) cg show "dl = invert_dict (power_table m g (ord_mod m g))"
    and "c_as_cyclic_group s = Some (power_table m g (ord_mod m g))" by simp_all
qed

lemma order_of_log_inv:
  assumes ct: "contracts c m" and inv: "ring_inv c m s"
    and none: "map_of (orders s) x = None" and gen: "c_generator s = Some g"
  shows "\<exists>r s'. order_of c s x = Some (r, s') \<and> ring_inv c m s' \<and>
           c_generator s' = c_generator s \<and>
           (x \<in> set (units m) \<longrightarrow> r = Inr (Some (int (ord_mod m x))))"
proof -
  have m: "2 \<le> m" using inv by (rule ring_inv_ge2)
  let ?s1 = "snd (euler c s)"
  note e1 = euler_step[OF ring_inv_caches[OF inv]]
  have inv1: "ring_inv c m ?s1" using inv e1(2,3) by (rule ring_inv_same_core)
  have cyc: "Phi c m = Lam c m" using ring_inv_generator(3)[OF inv gen] .
  have pos: "0 < Phi c m" using ct m by (rule Phi_pos)
  have "\<exists>r s'. discrete_log_via generator_cached c ?s1 = Some (Inr r, s') \<and> ring_inv c m s' \<and>
           r = c_discrete_log s' \<and> (Phi c m = Lam c m \<longrightarrow> r \<noteq> None)"
  proof (rule discrete_log_via_inv[OF ct inv1])
    fix s1' assume a: "ring_inv c m s1'" "same_core ?s1 s1'" "Phi c m = Lam c m"
    have "c_generator s1' = Some g" using a(2) e1(3) gen by (simp add: same_core_def)
    with a(1) show "\<exists>g s2. generator_cached s1' = Some (Inr (Some g), s2) \<and> ring_inv c m s2 \<and>
                     c_generator s2 = Some g"
      by (simp add: generator_cached_def)
  qed
  then obtain r s2 where
    r: "discrete_log_via generator_cached c ?s1 = Some (Inr r, s2)" "ring_inv c m s2"
       "r = c_discrete_log s2" "Phi c m = Lam c m \<longrightarrow> r \<noteq> None"
    by blast
  from r(4) cyc obtain d where d: "r = Some d" by auto
  have dl: "discrete_log_via generator_cached c ?s1 = Some (Inr (Some d), s2)"
    using r(1) d by simp
  have g2: "c_generator s2 = Some g"
    using discrete_log_via_cached_frame[OF dl] e1(3) gen by (simp add: same_core_def)
  have gu: "g \<in> set (units m)" "int (ord_mod m g) = Phi c m"
    using ring_inv_generator[OF r(2) g2] by simp_all
  have "c_discrete_log s2 = Some d" using r(3) d by simp
  from ring_inv_discrete_log(1)[OF r(2) this g2]
  have dtab: "d = invert_dict (power_table m g (ord_mod m g))" .
  let ?s3 = "snd (euler c s2)"
  note e3 = euler_step[OF ring_inv_caches[OF r(2)]]
  have inv3: "ring_inv c m ?s3" using r(2) e3(2,3) by (rule ring_inv_same_core)
  have g3: "c_generator ?s3 = c_generator s" using e3(3) g2 gen by (simp add: same_core_def)
  note path = order_of_log_path[OF none gen dl]
  show ?thesis
  proof (cases "map_of d x")
    case None
    have "x \<notin> set (units m)"
    proof
      assume "x \<in> set (units m)"
      from discrete_log_lookup[OF m gu(1) _ this] gu(2) Phi_contract[OF ct] None dtab
      show False by auto
    qed
    moreover have "order_of c s x = Some (Inl (KeyError x), s2)" using path None by simp
    ultimately show ?thesis using r(2) g2 gen by simp
  next
    case (Some k)
    have gcd: "gcd_numth k (Phi c m) = Inr (gcd k (Phi c m))"
      using pos by (intro gcd_numth_eq) auto
    have gpos: "gcd k (Phi c m) \<noteq> 0" using pos by simp
    let ?order = "Phi c m div gcd k (Phi c m)"
    have res: "order_of c s x = Some (Inr (Some ?order),
                 ?s3\<lparr>orders := AList.update x ?order (orders ?s3)\<rparr>)"
      using path Some e1(1) e3(1) gcd gpos by (simp add: Let_def py_floordiv_def)
    have val: "?order = int (ord_mod m x)" if xu: "x \<in> set (units m)"
    proof -
      have len: "ord_mod m g = length (units m)" using gu(2) Phi_contract[OF ct] by simp
      from discrete_log_lookup[OF m gu(1) len xu] obtain k' where
        k': "x = g ^ k' mod m" "map_of d x = Some (int k')" using dtab by blast
      with Some have k: "k = int k'" by simp
      have c: "coprime g m" using gu(1) by (simp add: in_units_iff)
      have "ord_mod m x = ord_mod m g div gcd k' (ord_mod m g)"
        unfolding k'(1) using m c by (rule ord_mod_power)
      then have "int (ord_mod m x) = int (ord_mod m g) div int (gcd k' (ord_mod m g))"
        by (simp add: zdiv_int)
      also have "\<dots> = Phi c m div gcd k (Phi c m)"
        using gu(2) k by (metis gcd_int_int_eq)
      finally show ?thesis by simp
    qed
    have "ring_inv c m (?s3\<lparr>orders := AList.update x ?order (orders ?s3)\<rparr>)"
      using inv3 val by (rule ring_inv_update_orders)
    with res val g3 show ?thesis by auto
  qed
qed

lemma order_of_inv:
  assumes ct: "contracts c m" and inv: "ring_inv c m s"
  shows "\<exists>r s'. order_of c s x = Some (r, s') \<and> ring_inv c m s' \<and>
           c_generator s' = c_generator s \<and>
           (x \<in> set (units m) \<longrightarrow> r = Inr (Some (int (ord_mod m x))))"
proof (cases "map_of (orders s) x")
  case (Some v)
  have "v = int (ord_mod m x)" if "x \<in> set (units m)"
    using that inv Some by (auto simp: ring_inv_def core_inv_def)
  then show ?thesis using order_of_cached[OF Some, of c] inv by simp
next
  case None
  show ?thesis
  proof (cases "c_generator s")
    case gen: None
    show ?thesis using ct inv None gen by (rule order_of_search_inv)
  next
    case (Some g)
    show ?thesis using ct inv None Some by (rule order_of_log_inv)
  qed
qed


section \<open>Generator, realization, logarithm table and reachable states\<close>

lemma core_inv_set_generator:
  assumes "core_inv c m s" "c_generator s = None" "x \<in> set (units m)"
    "int (ord_mod m x) = Phi c m" "Phi c m = Lam c m"
  shows "core_inv c m (s\<lparr>c_generator := Some x\<rparr>)"
  using assms by (auto simp: core_inv_def)

lemma generator_scan_inv:
  assumes ct: "contracts c m" and cyc: "Phi c m = Lam c m"
    and inv: "ring_inv c m s" and none: "c_generator s = None"
    and sub: "set xs \<subseteq> set (units m)"
  shows "\<exists>s'. generator_scan c s xs = Some (Inr (), s') \<and> ring_inv c m s' \<and>
           ((\<exists>x \<in> set xs. int (ord_mod m x) = Phi c m) \<longrightarrow> c_generator s' \<noteq> None)"
  using inv none sub
proof (induction xs arbitrary: s)
  case Nil
  then show ?case by simp
next
  case (Cons x xs)
  have xu: "x \<in> set (units m)" using Cons.prems(3) by simp
  from order_of_inv[OF ct Cons.prems(1), of x] xu obtain s1 where
    o: "order_of c s x = Some (Inr (Some (int (ord_mod m x))), s1)" "ring_inv c m s1"
       "c_generator s1 = c_generator s"
    by auto
  let ?s2 = "snd (euler c s1)"
  note e = euler_step[OF ring_inv_caches[OF o(2)]]
  have inv2: "ring_inv c m ?s2" using o(2) e(2,3) by (rule ring_inv_same_core)
  have g2: "c_generator ?s2 = None" using e(3) o(3) Cons.prems(2) by (simp add: same_core_def)
  show ?case
  proof (cases "int (ord_mod m x) = Phi c m")
    case True
    have "generator_scan c s (x # xs) = Some (Inr (), ?s2\<lparr>c_generator := Some x\<rparr>)"
      using True e(1) by (simp add: bind_m_Inr[OF o(1)] case_prod_beta)
    moreover have "ring_inv c m (?s2\<lparr>c_generator := Some x\<rparr>)"
      using inv2 core_inv_set_generator[OF _ g2 xu True cyc]
      by (simp add: ring_inv_def caches_inv_def)
    ultimately show ?thesis by simp
  next
    case False
    have "generator_scan c s (x # xs) = generator_scan c ?s2 xs"
      using False e(1) by (simp add: bind_m_Inr[OF o(1)] case_prod_beta)
    moreover from Cons.IH[OF inv2 g2] Cons.prems(3) obtain s' where
      "generator_scan c ?s2 xs = Some (Inr (), s')" "ring_inv c m s'"
      "(\<exists>x \<in> set xs. int (ord_mod m x) = Phi c m) \<longrightarrow> c_generator s' \<noteq> None"
      by auto
    ultimately show ?thesis using False by auto
  qed
qed

lemma generator_inv:
  assumes ct: "contracts c m" and inv: "ring_inv c m s"
  shows "\<exists>r s'. generator c s = Some (Inr r, s') \<and> ring_inv c m s' \<and> r = c_generator s' \<and>
           (Phi c m = Lam c m \<longrightarrow> r \<noteq> None)"
proof (cases "c_generator s")
  case (Some g)
  then show ?thesis using inv by (simp add: generator_def)
next
  case None
  let ?s1 = "snd (is_cyclic c s)"
  note ic = is_cyclic_step[OF ring_inv_caches[OF inv]]
  have inv1: "ring_inv c m ?s1" using inv ic(2,3) by (rule ring_inv_same_core)
  have g1: "c_generator ?s1 = None" using ic(3) None by (simp add: same_core_def)
  show ?thesis
  proof (cases "Phi c m = Lam c m")
    case False
    then have "generator c s = Some (Inr (c_generator ?s1), ?s1)"
      using None ic(1) by (simp add: generator_def case_prod_beta)
    with inv1 False show ?thesis by simp
  next
    case True
    let ?s2 = "snd (multiplicative_group c ?s1)"
    note mg = multiplicative_group_step[OF ring_inv_caches[OF inv1] prime_to_contract[OF ct]]
    have inv2: "ring_inv c m ?s2" using inv1 mg(2,3) by (rule ring_inv_same_core)
    have g2: "c_generator ?s2 = None" using mg(3) g1 by (simp add: same_core_def)
    from exists_generator[OF ct ring_inv_ge2[OF inv]] True
    have ex: "\<exists>x \<in> set (units m). int (ord_mod m x) = Phi c m" by simp
    from generator_scan_inv[OF ct True inv2 g2, of "units m"] ex obtain s3 where
      s3: "generator_scan c ?s2 (units m) = Some (Inr (), s3)" "ring_inv c m s3"
          "c_generator s3 \<noteq> None"
      by auto
    have "generator c s = Some (Inr (c_generator s3), s3)"
      using None ic(1) True mg(1)
      by (simp add: generator_def case_prod_beta bind_m_Inr[OF s3(1)])
    with s3 show ?thesis by simp
  qed
qed

lemma generator_supplies:
  assumes ct: "contracts c m" and inv: "ring_inv c m s1" and cyc: "Phi c m = Lam c m"
  shows "\<exists>g s2. generator c s1 = Some (Inr (Some g), s2) \<and> ring_inv c m s2 \<and>
           c_generator s2 = Some g"
proof -
  from generator_inv[OF ct inv] obtain r s2 where
    r: "generator c s1 = Some (Inr r, s2)" "ring_inv c m s2" "r = c_generator s2"
       "Phi c m = Lam c m \<longrightarrow> r \<noteq> None"
    by blast
  from r(4) cyc obtain g where g: "r = Some g" by auto
  then have "c_generator s2 = Some g" using r(3) by simp
  with r(1,2) g show ?thesis by blast
qed

lemma as_cyclic_group_inv:
  assumes ct: "contracts c m" and inv: "ring_inv c m s"
  shows "\<exists>r s'. as_cyclic_group c s = Some (Inr r, s') \<and> ring_inv c m s' \<and>
           r = c_as_cyclic_group s' \<and> (Phi c m = Lam c m \<longrightarrow> r \<noteq> None)"
  unfolding as_cyclic_group_def
  by (rule as_cyclic_group_via_inv[OF ct inv]) (rule generator_supplies[OF ct])

lemma discrete_log_inv:
  assumes ct: "contracts c m" and inv: "ring_inv c m s"
  shows "\<exists>r s'. discrete_log c s = Some (Inr r, s') \<and> ring_inv c m s' \<and>
           r = c_discrete_log s' \<and> (Phi c m = Lam c m \<longrightarrow> r \<noteq> None)"
  unfolding discrete_log_def
  by (rule discrete_log_via_inv[OF ct inv]) (rule generator_supplies[OF ct])

lemma order_of_each_inv:
  assumes ct: "contracts c m" and inv: "ring_inv c m s"
  shows "\<exists>r s'. order_of_each c s xs = Some (r, s') \<and> ring_inv c m s'"
  using inv
proof (induction xs arbitrary: s)
  case Nil
  then show ?case by simp
next
  case (Cons x xs)
  from order_of_inv[OF ct Cons.prems, of x] obtain r s1 where
    o: "order_of c s x = Some (r, s1)" "ring_inv c m s1" by blast
  show ?case
  proof (cases r)
    case (Inl e)
    then show ?thesis using o by (simp add: bind_m_def)
  next
    case (Inr v)
    then show ?thesis using o Cons.IH[OF o(2)] by (simp add: bind_m_def)
  qed
qed

lemma all_orders_inv:
  assumes ct: "contracts c m" and inv: "ring_inv c m s"
  shows "\<exists>r s'. all_orders c s = Some (r, s') \<and> ring_inv c m s'"
proof -
  let ?s1 = "snd (euler c s)"
  note e = euler_step[OF ring_inv_caches[OF inv]]
  have inv1: "ring_inv c m ?s1" using inv e(2,3) by (rule ring_inv_same_core)
  show ?thesis
  proof (cases "int (length (orders ?s1)) \<noteq> fst (euler c s)")
    case False
    then show ?thesis using inv1 by (simp add: all_orders_def case_prod_beta)
  next
    case True
    let ?s2 = "snd (is_cyclic c ?s1)"
    note ic = is_cyclic_step[OF ring_inv_caches[OF inv1]]
    have inv2: "ring_inv c m ?s2" using inv1 ic(2,3) by (rule ring_inv_same_core)
    let ?g = "if fst (is_cyclic c ?s1) then generator c ?s2 else Some (Inr None, ?s2)"
    have "\<exists>r s3. ?g = Some (Inr r, s3) \<and> ring_inv c m s3"
      using generator_inv[OF ct inv2] inv2 by auto
    then obtain r s3 where g: "?g = Some (Inr r, s3)" "ring_inv c m s3" by blast
    let ?s4 = "snd (multiplicative_group c s3)"
    note mg = multiplicative_group_step[OF ring_inv_caches[OF g(2)] prime_to_contract[OF ct]]
    have inv4: "ring_inv c m ?s4" using g(2) mg(2,3) by (rule ring_inv_same_core)
    from order_of_each_inv[OF ct inv4, of "fst (multiplicative_group c s3)"] obtain r5 s5 where
      o: "order_of_each c ?s4 (fst (multiplicative_group c s3)) = Some (r5, s5)" "ring_inv c m s5"
      by blast
    have "all_orders c s =
          bind_m (order_of_each c ?s4 (fst (multiplicative_group c s3)))
            (\<lambda>u s5. Some (Inr (orders s5), s5))"
      using True by (simp add: all_orders_def case_prod_beta bind_m_Inr[OF g(1)])
    then show ?thesis using o by (cases r5) (simp_all add: bind_m_def)
  qed
qed

lemma generators_among_inv:
  "ring_inv c m s \<Longrightarrow> ring_inv c m (snd (generators_among c s items))"
proof (induction items arbitrary: s)
  case Nil
  then show ?case by simp
next
  case (Cons a items)
  obtain x ord where a: "a = (x, ord)" by (cases a)
  note e = euler_step[OF ring_inv_caches[OF Cons.prems]]
  have "ring_inv c m (snd (euler c s))" using Cons.prems e(2,3) by (rule ring_inv_same_core)
  from Cons.IH[OF this] show ?case by (simp add: a case_prod_beta)
qed

lemma all_generators_inv:
  assumes ct: "contracts c m" and inv: "ring_inv c m s"
  shows "\<exists>r s'. all_generators c s = Some (r, s') \<and> ring_inv c m s'"
proof -
  from all_orders_inv[OF ct inv] obtain r s1 where
    a: "all_orders c s = Some (r, s1)" "ring_inv c m s1" by blast
  show ?thesis
  proof (cases r)
    case (Inl e)
    then show ?thesis using a by (simp add: all_generators_def bind_m_def)
  next
    case (Inr tbl)
    then show ?thesis using a generators_among_inv[OF a(2), of tbl]
      by (simp add: all_generators_def bind_m_def case_prod_beta)
  qed
qed

lemma reachable_inv:
  assumes ct: "contracts c m" and r: "reachable c m s"
  shows "ring_inv c m s"
  using r
proof (induction rule: reachable.induct)
  case init
  then show ?case by (rule ring_inv_init)
next
  case (factorization s)
  then show ?case using factorization_step[of c m s]
    by (auto intro: ring_inv_same_core dest: ring_inv_caches)
next
  case (euler s)
  then show ?case using euler_step[of c m s]
    by (auto intro: ring_inv_same_core dest: ring_inv_caches)
next
  case (carmichael s)
  then show ?case using carmichael_step[of c m s]
    by (auto intro: ring_inv_same_core dest: ring_inv_caches)
next
  case (carmichael_factorization s)
  then show ?case using carmichael_factorization_step[of c m s]
    by (auto intro: ring_inv_same_core dest: ring_inv_caches)
next
  case (carmichael_primes s)
  then show ?case using carmichael_primes_step[of c m s]
    by (auto intro: ring_inv_same_core dest: ring_inv_caches)
next
  case (is_cyclic s)
  then show ?case using is_cyclic_step[of c m s]
    by (auto intro: ring_inv_same_core dest: ring_inv_caches)
next
  case (multiplicative_group s)
  then show ?case using multiplicative_group_step[of c m s] prime_to_contract[OF ct]
    by (auto intro: ring_inv_same_core dest: ring_inv_caches)
next
  case (generator s r s')
  then show ?case using generator_inv[OF ct, of s] by auto
next
  case (as_cyclic_group s r1 s')
  then show ?case using as_cyclic_group_inv[OF ct, of s] by auto
next
  case (discrete_log s r1 s')
  then show ?case using discrete_log_inv[OF ct, of s] by auto
next
  case (all_orders s r2 s')
  then show ?case using all_orders_inv[OF ct, of s] by auto
next
  case (all_generators s r3 s')
  then show ?case using all_generators_inv[OF ct, of s] by auto
next
  case (order_of s x r s')
  then show ?case using order_of_inv[OF ct, of s x] by auto
next
  case (cyclic_subgroup_from s x r2 s')
  then show ?case by (auto intro: cyclic_subgroup_from_inv)
qed


section \<open>The circle of methods\<close>

lemma generator_when_cached:
  "c_generator s = Some g \<Longrightarrow> generator c s = generator_cached s"
  by (simp add: generator_def generator_cached_def)

lemma as_cyclic_group_via_cong:
  assumes "\<And>s'. c_generator s' = c_generator s \<Longrightarrow> gen s' = gen' s'"
  shows "as_cyclic_group_via gen c s = as_cyclic_group_via gen' c s"
  using assms[of "snd (is_cyclic c s)"]
  by (simp add: as_cyclic_group_via_def case_prod_beta is_cyclic_frame split: option.splits)

lemma discrete_log_via_cong:
  assumes "\<And>s'. c_generator s' = c_generator s \<Longrightarrow> gen s' = gen' s'"
  shows "discrete_log_via gen c s = discrete_log_via gen' c s"
proof -
  have "as_cyclic_group_via gen c (snd (is_cyclic c s)) =
        as_cyclic_group_via gen' c (snd (is_cyclic c s))"
    by (rule as_cyclic_group_via_cong) (simp add: assms is_cyclic_frame)
  then show ?thesis by (simp add: discrete_log_via_def case_prod_beta split: option.splits)
qed

text \<open>
  \<open>order_of\<close> satisfies the equation that the source writes: its body, with the method
  \<open>discrete_log\<close> itself for the logarithm table.
\<close>

lemma order_of_source_equation:
  "order_of c s element = order_of_body (discrete_log c) c s element"
proof (cases "c_generator s")
  case None
  then show ?thesis by (simp add: order_of_def order_of_body_def split: option.splits)
next
  case (Some g)
  have "discrete_log_via generator_cached c (snd (euler c s)) =
        discrete_log_via (generator c) c (snd (euler c s))"
  proof (rule discrete_log_via_cong)
    fix s' :: ring assume "c_generator s' = c_generator (snd (euler c s))"
    then have "c_generator s' = Some g" using Some by (simp add: euler_frame)
    then show "generator_cached s' = generator c s'" by (simp add: generator_when_cached)
  qed
  then show ?thesis
    using Some
    by (simp add: order_of_def order_of_body_def discrete_log_def case_prod_beta
        split: option.splits)
qed


section \<open>The claims about \<^verbatim>\<open>numth.py\<close>\<close>

text \<open>
  C1. For every integer \<open>num\<close> and every nonzero \<open>denom\<close>, division in default mode
  returns \<open>(q, r)\<close> with \<open>num = q * denom + r\<close> and \<open>0 \<le> r < |denom|\<close>. The code does
  not do this: \<^verbatim>\<open>div(-6, -3)\<close> returns \<open>(3, 3)\<close>, whose remainder equals \<open>|denom|\<close>. The
  guard \<^verbatim>\<open>num == 0\<close> catches only one of the numerators that a negative divisor
  divides exactly (\<open>div_numth_default\<close> above has the general statement), while the
  self-test of the module asserts \<^verbatim>\<open>r < abs(b)\<close>.
\<close>

theorem div_default_remainder_reaches_abs_denom:
  "div_numth (-6) (-3) None = Inr (3, 3) \<and> \<not> (3 < \<bar>-3 :: int\<bar>)"
  by (simp add: div_numth_def)

text \<open>
  C7. For every integer \<open>num\<close> and nonzero \<open>denom\<close>, division in \<^verbatim>\<open>SMALL\<close> mode returns
  \<open>(q, r)\<close> with \<open>num = q * denom + r\<close> and \<open>-|denom|/2 < r \<le> |denom|/2\<close>. The bounds are
  stated without fractions (\<open>-|denom| < 2 r \<le> |denom|\<close>) and also the way the self-test
  of the module writes them, with floor division.
\<close>

theorem div_SMALL_balanced:
  "denom \<noteq> 0 \<Longrightarrow>
     \<exists>q r. div_numth num denom SMALL = Inr (q, r) \<and> num = q * denom + r \<and>
       - \<bar>denom\<bar> < 2 * r \<and> 2 * r \<le> \<bar>denom\<bar> \<and>
       r \<le> \<bar>denom\<bar> div 2 \<and> (- \<bar>denom\<bar>) div 2 < r"
proof -
  assume "denom \<noteq> 0"
  then obtain q r where *: "div_numth num denom SMALL = Inr (q, r)" "num = q * denom + r"
    "- \<bar>denom\<bar> < 2 * r" "2 * r \<le> \<bar>denom\<bar>"
    by (rule div_numth_SMALL)
  from *(3,4) have "r \<le> \<bar>denom\<bar> div 2" "(- \<bar>denom\<bar>) div 2 < r" by linarith+
  with * show ?thesis by blast
qed

theorem div_SMALL_balanced_witness:
  "(-3::int) \<noteq> 0 \<and> (\<exists>q r. div_numth 8 (-3) SMALL = Inr (q, r) \<and> 8 = q * (-3) + r \<and>
       - \<bar>-3::int\<bar> < 2 * r \<and> 2 * r \<le> \<bar>-3::int\<bar> \<and>
       r \<le> \<bar>-3::int\<bar> div 2 \<and> (- \<bar>-3::int\<bar>) div 2 < r)"
  using div_SMALL_balanced[of "-3" 8] by simp

text \<open>
  C2. For every \<open>mod < 2\<close>, \<^verbatim>\<open>mod_inverse(num, mod)\<close> fails with the invalid-modulus
  error. The code does not do this for \<open>mod = 1\<close>: its guard is \<^verbatim>\<open>mod < 1\<close>, although
  its message, its docstring and the guard of \<^verbatim>\<open>mod_power\<close> all say 2, and with
  modulus 1 the call returns 0 (for every \<open>num\<close>, see \<open>mod_inverse_modulus_one\<close>).
\<close>

theorem mod_inverse_modulus_one_returns:
  "mod_inverse 5 1 = Inr 0 \<and> mod_inverse 5 1 \<noteq> Inl InvalidModulus"
  by (simp add: mod_inverse_def gcd_numth_def bezout_def div_numth_def
      gcd_loop.simps bezout_loop.simps)

text \<open>
  C3. For every even \<open>b\<close>, \<^verbatim>\<open>jacobi(a, b)\<close> fails with the undefined-Jacobi-symbol
  error. The code does not do this: its \<^verbatim>\<open>raise\<close> formats the message from the unbound
  names \<^verbatim>\<open>num\<close> and \<^verbatim>\<open>mod\<close>, so the call fails with a \<^verbatim>\<open>NameError\<close> before the
  \<^verbatim>\<open>ValueError\<close> exists (for every even \<open>b\<close>, see \<open>jacobi_even\<close>).
\<close>

theorem jacobi_even_raises_NameError:
  "jacobi 1 2 = Some (Inl (NameError ''num'')) \<and> jacobi 1 2 \<noteq> Some (Inl UndefinedJacobiSymbol)"
  by (simp add: jacobi.simps UndefinedJacobiSymbol_def)

text \<open>
  C4. For every base of at least 2, \<^verbatim>\<open>padic(num, base)\<close> returns for every nonzero
  \<open>num\<close>, and its result \<open>(exp, rest)\<close> satisfies \<open>num = base ^ exp * rest\<close> and
  \<open>rest mod base \<noteq> 0\<close>; for \<open>num = 0\<close> the loop never returns.
\<close>

theorem padic_spec:
  "2 \<le> base \<Longrightarrow>
     (num \<noteq> 0 \<longrightarrow>
        (\<exists>e r. padic num base = Some (Inr (e, r)) \<and> 0 \<le> e \<and>
               num = base ^ nat e * r \<and> r mod base \<noteq> 0)) \<and>
     padic 0 base = None"
proof -
  assume b: "2 \<le> base"
  have "\<exists>e r. padic num base = Some (Inr (e, r)) \<and> 0 \<le> e \<and>
               num = base ^ nat e * r \<and> r mod base \<noteq> 0" if "num \<noteq> 0"
    using padic_loop_returns[OF b that, of 0] b by (auto simp: padic_def)
  moreover have "padic 0 base = None"
    using b by (simp add: padic_def padic_loop_zero)
  ultimately show ?thesis by blast
qed

theorem padic_spec_witness:
  "(2::int) \<le> 2 \<and> (24::int) \<noteq> 0 \<and>
     (\<exists>e r. padic 24 2 = Some (Inr (e, r)) \<and> 0 \<le> e \<and>
            24 = 2 ^ nat e * r \<and> r mod 2 \<noteq> 0) \<and>
     padic 0 2 = None"
  using padic_spec[of 2 24] by simp

text \<open>
  C5. For all integers \<open>a\<close>, \<open>b\<close> that are not both zero, \<^verbatim>\<open>bezout(a, b)\<close> returns a pair
  \<open>(x, y)\<close> with \<open>a * x + b * y = gcd(a, b)\<close>, and this value is strictly positive. The
  greatest common divisor is both the one \<^verbatim>\<open>gcd\<close> of the module computes and the
  mathematical one.
\<close>

theorem bezout_spec:
  "(a, b) \<noteq> (0, 0) \<Longrightarrow>
     \<exists>x y. bezout a b = Inr (x, y) \<and> gcd_numth a b = Inr (a * x + b * y) \<and>
           a * x + b * y = gcd a b \<and> 0 < a * x + b * y"
  by (rule bezout_correct)

theorem bezout_spec_witness:
  "(12, -18) \<noteq> (0, 0 :: int) \<and> (\<exists>x y. bezout 12 (-18) = Inr (x, y) \<and>
     gcd_numth 12 (-18) = Inr (12 * x + (-18) * y) \<and>
     12 * x + (-18) * y = gcd 12 (-18) \<and> 0 < 12 * x + (-18) * y)"
  using bezout_spec[of 12 "-18"] by simp

text \<open>
  C6. For every integer \<open>num\<close>, every exponent \<open>exp \<ge> 0\<close> and every modulus \<open>mod \<ge> 2\<close>,
  \<^verbatim>\<open>mod_power(num, exp, mod)\<close> returns \<open>num ^ exp mod mod\<close>.
\<close>

theorem mod_power_spec:
  "0 \<le> exp \<Longrightarrow> 2 \<le> m \<Longrightarrow> mod_power num exp m = Inr (num ^ nat exp mod m)"
  by (rule mod_power_nonneg)

theorem mod_power_spec_witness:
  "(0::int) \<le> 5 \<and> (2::int) \<le> 7 \<and> mod_power 3 5 7 = Inr (3 ^ nat 5 mod 7)"
  using mod_power_spec[of 5 7 3] by simp

section \<open>The claims about \<^verbatim>\<open>modular_ring.py\<close>\<close>

text \<open>
  C8. For every ring whose collaborators satisfy their contracts, in every state that the
  methods of the class can bring about, and for every unit \<open>x\<close> of the ring (a residue in
  \<open>[1, m)\<close> that is prime to the modulus), \<^verbatim>\<open>order_of(x)\<close> returns a number, and this
  number divides what \<^verbatim>\<open>carmichael()\<close> returns.
\<close>

theorem order_of_divides_carmichael:
  assumes "contracts c m" "reachable c m s" "1 \<le> x" "x < m" "gcd x m = 1"
  shows "\<exists>ord s'. order_of c s x = Some (Inr (Some ord), s') \<and> ord dvd fst (carmichael c s')"
proof -
  have inv: "ring_inv c m s" using assms(1,2) by (rule reachable_inv)
  have xu: "x \<in> set (units m)" using assms(3-5) by (simp add: in_units_iff coprime_iff_gcd_eq_1)
  from order_of_inv[OF assms(1) inv, of x] xu obtain s' where
    o: "order_of c s x = Some (Inr (Some (int (ord_mod m x))), s')" "ring_inv c m s'"
    by auto
  have "fst (carmichael c s') = Lam c m"
    using carmichael_step(1)[OF ring_inv_caches[OF o(2)]] .
  moreover have "int (ord_mod m x) dvd Lam c m"
    using assms(1) ring_inv_ge2[OF inv] xu by (rule ord_dvd_Lam)
  ultimately show ?thesis using o(1) by simp
qed

theorem order_of_divides_carmichael_witness:
  "contracts collab7 7 \<and> reachable collab7 7 (ModularRing 7) \<and>
   (1::int) \<le> 3 \<and> (3::int) < 7 \<and> gcd (3::int) 7 = 1 \<and>
   (\<exists>ord s'. order_of collab7 (ModularRing 7) 3 = Some (Inr (Some ord), s') \<and>
              ord dvd fst (carmichael collab7 s'))"
proof -
  have c: "contracts collab7 7" by code_simp
  have r: "reachable collab7 7 (ModularRing 7)" by (rule reachable.init) simp
  have g: "gcd (3::int) 7 = 1" by code_simp
  show ?thesis
    using order_of_divides_carmichael[OF c r, of 3] c r g by simp
qed


text \<open>
  C9. For every cyclic ring (one whose \<^verbatim>\<open>is_cyclic()\<close> is true) with collaborators that
  satisfy their contracts, in every state that the methods can bring about,
  \<^verbatim>\<open>discrete_log()\<close> and then \<^verbatim>\<open>as_cyclic_group()\<close> return tables such that, for
  every power index \<open>p\<close> of the realization, the logarithm of the element at \<open>p\<close> is \<open>p\<close>;
  the power indices are the numbers from 0 below \<^verbatim>\<open>euler()\<close>. For the modulus 7 they
  are the numbers in \<open>[0, 6)\<close>.
\<close>

theorem discrete_log_inverts_cyclic_realization:
  assumes "contracts c m" "reachable c m s" "fst (is_cyclic c s)"
  shows "\<exists>dl cg s1 s2.
           discrete_log c s = Some (Inr (Some dl), s1) \<and>
           as_cyclic_group c s1 = Some (Inr (Some cg), s2) \<and>
           fst ` set cg = {0..<fst (euler c s2)} \<and>
           (\<forall>p \<in> fst ` set cg. \<exists>x. map_of cg p = Some x \<and> map_of dl x = Some p)"
proof -
  have inv: "ring_inv c m s" using assms(1,2) by (rule reachable_inv)
  have m: "2 \<le> m" using inv by (rule ring_inv_ge2)
  have cyc: "Phi c m = Lam c m"
    using is_cyclic_step(1)[OF ring_inv_caches[OF inv]] assms(3) by simp
  from discrete_log_inv[OF assms(1) inv] obtain r s1 where
    r: "discrete_log c s = Some (Inr r, s1)" "ring_inv c m s1" "r = c_discrete_log s1"
       "Phi c m = Lam c m \<longrightarrow> r \<noteq> None"
    by blast
  from r(4) cyc obtain dl where dl: "r = Some dl" by auto
  then have dl1: "c_discrete_log s1 = Some dl" using r(3) by simp
  from r(2) dl1 obtain cg where cg: "c_as_cyclic_group s1 = Some cg" "dl = invert_dict cg"
    by (auto simp: ring_inv_def core_inv_def)
  from r(2) cg(1) obtain g where g: "c_generator s1 = Some g" "cg = power_table m g (ord_mod m g)"
    by (auto simp: ring_inv_def core_inv_def)
  note gu = ring_inv_generator[OF r(2) g(1)]
  have c: "coprime g m" using gu(1) by (simp add: in_units_iff)
  have ac: "as_cyclic_group c s1 = Some (Inr (Some cg), s1)"
    using cg(1) by (simp add: as_cyclic_group_def as_cyclic_group_via_def)
  have "fst (euler c s1) = Phi c m" using euler_step(1)[OF ring_inv_caches[OF r(2)]] .
  then have dom: "fst ` set cg = {0..<fst (euler c s1)}"
    unfolding g(2) fst_power_table using gu(2)
    by (auto simp: image_iff) (metis atLeastLessThan_iff nat_less_iff int_nat_eq zero_le)
  have rt: "\<exists>x. map_of cg p = Some x \<and> map_of dl x = Some p" if "p \<in> fst ` set cg" for p
  proof -
    from that obtain x where px: "(p, x) \<in> set cg" by force
    have "distinct (map fst cg)" unfolding g(2) by (simp add: power_table_def comp_def distinct_map inj_on_def)
    with px have "map_of cg p = Some x" by simp
    moreover have "map_of dl x = Some p"
      unfolding cg(2) using distinct_values_power_table[OF m c] px unfolding g(2)
      by (rule map_of_invert_dict)
    ultimately show ?thesis by blast
  qed
  show ?thesis using r(1) dl ac dom rt by blast
qed


theorem discrete_log_inverts_cyclic_realization_witness:
  "contracts collab7 7 \<and> reachable collab7 7 (ModularRing 7) \<and>
   fst (is_cyclic collab7 (ModularRing 7)) \<and>
   (\<exists>dl cg s1 s2.
      discrete_log collab7 (ModularRing 7) = Some (Inr (Some dl), s1) \<and>
      as_cyclic_group collab7 s1 = Some (Inr (Some cg), s2) \<and>
      fst ` set cg = {0..<6} \<and>
      (\<forall>p \<in> fst ` set cg. \<exists>x. map_of cg p = Some x \<and> map_of dl x = Some p))"
proof -
  have c: "contracts collab7 7" by code_simp
  have r: "reachable collab7 7 (ModularRing 7)" by (rule reachable.init) simp
  have i: "fst (is_cyclic collab7 (ModularRing 7))" by code_simp
  from discrete_log_inverts_cyclic_realization[OF c r i] show ?thesis
  proof (elim exE conjE)
  fix dl cg s1 s2
  assume *: "discrete_log collab7 (ModularRing 7) = Some (Inr (Some dl), s1)"
       "as_cyclic_group collab7 s1 = Some (Inr (Some cg), s2)"
       "fst ` set cg = {0..<fst (euler collab7 s2)}"
       "\<forall>p \<in> fst ` set cg. \<exists>x. map_of cg p = Some x \<and> map_of dl x = Some p"
  have r1: "reachable collab7 7 s1" using r *(1) by (rule reachable.discrete_log)
  have r2: "reachable collab7 7 s2" using r1 *(2) by (rule reachable.as_cyclic_group)
  have "fst (euler collab7 s2) = Phi collab7 7"
    using euler_step(1)[OF ring_inv_caches[OF reachable_inv[OF c r2]]] .
  also have "\<dots> = 6" by (simp add: Phi_def collab7_def)
  finally have e6: "fst (euler collab7 s2) = 6" .
  have "\<exists>dl cg s1 s2.
      discrete_log collab7 (ModularRing 7) = Some (Inr (Some dl), s1) \<and>
      as_cyclic_group collab7 s1 = Some (Inr (Some cg), s2) \<and>
      fst ` set cg = {0..<6} \<and>
      (\<forall>p \<in> fst ` set cg. \<exists>x. map_of cg p = Some x \<and> map_of dl x = Some p)"
  proof (intro exI conjI)
    show "discrete_log collab7 (ModularRing 7) = Some (Inr (Some dl), s1)" by (rule *(1))
    show "as_cyclic_group collab7 s1 = Some (Inr (Some cg), s2)" by (rule *(2))
    show "fst ` set cg = {0..<6}" using *(3) by (simp only: e6)
    show "\<forall>p \<in> fst ` set cg. \<exists>x. map_of cg p = Some x \<and> map_of dl x = Some p" by (rule *(4))
  qed
  with c r i show ?thesis by (intro conjI)
  qed
qed


text \<open>
  C10. For every ring and every element in \<open>[0, modulus)\<close>,
  \<^verbatim>\<open>cyclic_subgroup_from(element)\<close> returns if and only if \<open>gcd(element, modulus) = 1\<close>,
  where the greatest common divisor is the one the module computes; when it returns, the
  result is the dictionary \<open>{i : element ^ i mod modulus}\<close> for \<open>0 \<le> i < k\<close>, with \<open>k\<close>
  the least positive exponent that takes the element to 1. The code does this in every
  ring whose modulus is not 1; a modulus below 1 has no element in \<open>[0, modulus)\<close>, so
  these are the rings of modulus at least 2, and the state of the caches does not matter.
  At modulus 1 it does not: see below.
\<close>

theorem cyclic_subgroup_from_spec:
  assumes "modulus s \<noteq> 1" "0 \<le> element" "element < modulus s"
  shows "(gcd_numth element (modulus s) = Inr 1 \<longrightarrow>
           (\<exists>k s'. cyclic_subgroup_from s element =
                     Some (Inr (map (\<lambda>i. (int i, element ^ i mod modulus s)) [0..<k]), s') \<and>
                   0 < k \<and> element ^ k mod modulus s = 1 \<and>
                   (\<forall>j \<in> {1..<k}. element ^ j mod modulus s \<noteq> 1))) \<and>
         (gcd_numth element (modulus s) \<noteq> Inr 1 \<longrightarrow> cyclic_subgroup_from s element = None)"
proof -
  let ?m = "modulus s"
  have m2: "2 \<le> ?m" using assms by linarith
  have g: "gcd_numth element ?m = Inr (gcd element ?m)"
    using m2 by (intro gcd_numth_eq) auto
  show ?thesis
  proof (cases "coprime element ?m")
    case True
    then have one: "gcd_numth element ?m = Inr 1" using g by (simp add: coprime_iff_gcd_eq_1)
    let ?k = "ord_mod ?m element"
    have k: "0 < ?k" "element ^ ?k mod ?m = 1" using ord_mod_props[OF m2 True] by simp_all
    have "\<forall>j \<in> {1..<?k}. element ^ j mod ?m \<noteq> 1"
      using ord_mod_least[of _ ?m element] by auto
    with cyclic_subgroup_from_unit[OF m2 assms(2,3) True] k one show ?thesis
      unfolding power_table_def by blast
  next
    case False
    then have ne: "gcd_numth element ?m \<noteq> Inr 1" using g by (simp add: coprime_iff_gcd_eq_1)
    have "cyclic_subgroup_from s element = None"
      using cyclic_subgroup_from_Some_coprime[OF _ m2, of element] False
      by (cases "cyclic_subgroup_from s element") auto
    with ne show ?thesis by simp
  qed
qed

theorem cyclic_subgroup_from_spec_witness:
  "modulus (ModularRing 7) \<noteq> 1 \<and> (0::int) \<le> 2 \<and> 2 < modulus (ModularRing 7) \<and>
   gcd_numth 2 (modulus (ModularRing 7)) = Inr 1 \<and>
   (\<exists>k s'. cyclic_subgroup_from (ModularRing 7) 2 =
              Some (Inr (map (\<lambda>i. (int i, 2 ^ i mod modulus (ModularRing 7))) [0..<k]), s') \<and>
            0 < k \<and> 2 ^ k mod modulus (ModularRing 7) = 1 \<and>
            (\<forall>j \<in> {1..<k}. 2 ^ j mod modulus (ModularRing 7) \<noteq> 1)) \<and>
   (0::int) \<le> 0 \<and> 0 < modulus (ModularRing 7) \<and>
   gcd_numth 0 (modulus (ModularRing 7)) \<noteq> Inr 1 \<and>
   cyclic_subgroup_from (ModularRing 7) 0 = None"
proof -
  have m: "modulus (ModularRing 7) = 7" by (simp add: ModularRing_def)
  have g2: "gcd_numth 2 7 = Inr 1"
    by (simp add: gcd_numth_def gcd_loop.simps div_numth_def)
  have g0: "gcd_numth 0 7 \<noteq> Inr 1"
    by (simp add: gcd_numth_def gcd_loop.simps div_numth_def)
  show ?thesis
    using cyclic_subgroup_from_spec[of "ModularRing 7" 2]
      cyclic_subgroup_from_spec[of "ModularRing 7" 0] g2 g0
    by (simp add: m)
qed

text \<open>
  The constructor accepts the modulus 1. There 0 is the only element of \<open>[0, modulus)\<close>
  and the module's \<open>gcd(0, 1)\<close> is 1, but \<^verbatim>\<open>cyclic_subgroup_from(0)\<close> does not return: the
  loop waits for the power to become 1, and every product modulo 1 is 0. So the statement
  does not hold for every ring.
\<close>

theorem cyclic_subgroup_from_modulus_one_diverges:
  "modulus (ModularRing 1) = 1 \<and> (0::int) \<le> 0 \<and> 0 < modulus (ModularRing 1) \<and>
   gcd_numth 0 (modulus (ModularRing 1)) = Inr 1 \<and>
   cyclic_subgroup_from (ModularRing 1) 0 = None"
proof -
  have m: "modulus (ModularRing 1) = 1" by (simp add: ModularRing_def)
  have "cyclic_subgroup_loop (ModularRing 1) 0 [(0, 1)] 0 1 = None"
    using cyclic_subgroup_loop_modulus_one[OF _ m, of 0 "[(0, 1)]" 0 1]
    by (cases "cyclic_subgroup_loop (ModularRing 1) 0 [(0, 1)] 0 1") auto
  then have "cyclic_subgroup_from (ModularRing 1) 0 = None"
    by (simp add: cyclic_subgroup_from_def)
  moreover have "gcd_numth 0 (modulus (ModularRing 1)) = Inr 1"
    by (simp add: m gcd_numth_def gcd_loop.simps div_numth_def)
  ultimately show ?thesis using m by simp
qed


end
